theory Spec2Isabelle
  imports Complex_Main "HOL-Library.AList" "HOL-Library.Log_Nat"
begin

section \<open>Road network of San Juan de Lurigancho: adjacency, components, sampling\<close>

text \<open>
  The program is one Python script. Its numbers are floats, that is IEEE 754 doubles. A
  finite double is a rational number, so a float is modelled by the rational it denotes,
  and every float operation computes the exact result and rounds it to the nearest
  double (\<open>py_float\<close>). Dictionaries keep their insertion order in Python and are
  association lists with distinct keys (\<open>AList.update\<close> overwrites in place or appends
  at the end, as an assignment to a dict key does). Python sets are HOL sets.
\<close>

subsection \<open>Errors and Python values\<close>

datatype py_error = KeyError | ZeroDivisionError | IndexError

text \<open>The values an edge attribute read from OpenStreetMap can hold.\<close>

datatype py_val = PNone | PBool bool | PInt int | PFloat rat | PStr string

text \<open>Python's \<open>==\<close>: a bool is the integer 0 or 1, numbers compare by value.\<close>

fun py_num :: "py_val \<Rightarrow> rat option" where
  "py_num (PBool b) = Some (if b then 1 else 0)"
| "py_num (PInt i) = Some (of_int i)"
| "py_num (PFloat r) = Some r"
| "py_num PNone = None"
| "py_num (PStr s) = None"

fun py_eq :: "py_val \<Rightarrow> py_val \<Rightarrow> bool" where
  "py_eq PNone PNone = True"
| "py_eq (PStr s) (PStr t) = (s = t)"
| "py_eq a b = (case (py_num a, py_num b) of (Some x, Some y) \<Rightarrow> x = y | _ \<Rightarrow> False)"

text \<open>\<open>x in (a, b, ...)\<close> on a tuple.\<close>

definition py_in :: "py_val \<Rightarrow> py_val list \<Rightarrow> bool" where
  "py_in x ys = list_ex (py_eq x) ys"

text \<open>Python's truth value of an object: what \<open>bool(x)\<close> returns.\<close>

fun py_truthy :: "py_val \<Rightarrow> bool" where
  "py_truthy PNone = False"
| "py_truthy (PBool b) = b"
| "py_truthy (PInt i) = (i \<noteq> 0)"
| "py_truthy (PFloat r) = (r \<noteq> 0)"
| "py_truthy (PStr s) = (s \<noteq> [])"

text \<open>Rounding to the nearest integer, a tie going to the even one.\<close>

definition round_half_even :: "rat \<Rightarrow> int" where
  "round_half_even y =
     (let f = \<lfloor>y\<rfloor>; r = y - of_int f
      in if r < 1 / 2 then f else if 1 / 2 < r then f + 1
         else if even f then f else f + 1)"

text \<open>
  The binary exponent of a non-zero number: the \<open>e\<close> with \<open>2 ^ e \<le> \<bar>x\<bar> < 2 ^ (e + 1)\<close>,
  found from the bit lengths of numerator and denominator.
\<close>

definition exponente :: "rat \<Rightarrow> int" where
  "exponente x =
     (let p = fst (quotient_of \<bar>x\<bar>); q = snd (quotient_of \<bar>x\<bar>);
          d = bitlen p - bitlen q
      in if power_int 2 d \<le> \<bar>x\<bar> then d else d - 1)"

text \<open>
  The double nearest to \<open>x\<close>: 53 significant bits, the last place never below
  \<open>2 ^ - 1074\<close> (subnormal numbers), a tie going to the even significand. Overflow to
  infinity is not modelled: \<open>py_float\<close> stands for the float only on numbers of magnitude
  at most \<open>max_double\<close>, the largest double. The converter divides by 500 in all, so it
  stays in that range when its argument is in it.
\<close>

definition max_double :: rat where
  "max_double = (2 ^ 53 - 1) * 2 ^ 971"

definition py_float :: "rat \<Rightarrow> rat" where
  "py_float x =
     (if x = 0 then 0
      else (let q = max (exponente x - 52) (- 1074)
            in of_int (round_half_even (x / power_int 2 q)) * power_int 2 q))"

text \<open>Float division and multiplication.\<close>

definition py_truediv :: "rat \<Rightarrow> rat \<Rightarrow> py_error + rat" where
  "py_truediv a b = (if b = 0 then Inl ZeroDivisionError else Inr (py_float (a / b)))"

definition py_mul :: "rat \<Rightarrow> rat \<Rightarrow> rat" where
  "py_mul a b = py_float (a * b)"

text \<open>
  \<open>round(x, 2)\<close> on a float: the exact value of \<open>x\<close> is rounded to the nearest multiple of
  1/100, a tie going to the even one, and the double nearest to that decimal is returned.
\<close>

definition py_round2 :: "rat \<Rightarrow> rat" where
  "py_round2 x = py_float (of_int (round_half_even (x * 100)) / 100)"

subsection \<open>Dictionaries\<close>

type_synonym ('k, 'v) dict = "('k \<times> 'v) list"

definition keys :: "('k, 'v) dict \<Rightarrow> 'k list" where
  "keys d = map fst d"

text \<open>\<open>d[k]\<close> raises KeyError on a missing key; \<open>d.get(k, default)\<close> does not.\<close>

definition getitem :: "('k, 'v) dict \<Rightarrow> 'k \<Rightarrow> py_error + 'v" where
  "getitem d k = (case map_of d k of None \<Rightarrow> Inl KeyError | Some v \<Rightarrow> Inr v)"

definition get_or :: "('k, 'v) dict \<Rightarrow> 'k \<Rightarrow> 'v \<Rightarrow> 'v" where
  "get_or d k dflt = (case map_of d k of None \<Rightarrow> dflt | Some v \<Rightarrow> v)"

subsection \<open>Distance to time\<close>

definition velocidad_kmh :: rat where
  "velocidad_kmh = 30"

text \<open>
  The float \<open>minutos\<close> of \<open>metros_a_minutos\<close>, before \<open>round\<close>: the argument is taken as a
  float, and each of the three operations rounds.
\<close>

definition minutos_de :: "rat \<Rightarrow> rat" where
  "minutos_de dist_m =
     py_float (py_float (py_float (py_float dist_m / 1000) / velocidad_kmh) * 60)"

definition metros_a_minutos :: "rat \<Rightarrow> py_error + rat" where
  "metros_a_minutos dist_m =
     (case py_truediv (py_float dist_m) 1000 of
        Inl e \<Rightarrow> Inl e
      | Inr distancia_km \<Rightarrow>
          (case py_truediv distancia_km velocidad_kmh of
             Inl e \<Rightarrow> Inl e
           | Inr q \<Rightarrow> Inr (py_round2 (py_mul q 60))))"

subsection \<open>Building the adjacency list\<close>

record datos_nodo =
  x_attr :: "rat option"
  y_attr :: "rat option"

record datos_arista =
  length_attr :: "rat option"
  oneway_attr :: "py_val option"

type_synonym 'n vecino_info = "'n \<times> rat \<times> rat"
type_synonym 'n ady = "('n, 'n vecino_info list) dict"
type_synonym 'n info = "('n, rat \<times> rat) dict"

text \<open>One turn of the loop over \<open>grafo_osm.nodes(data=True)\<close>.\<close>

definition paso_nodo :: "'n \<times> datos_nodo \<Rightarrow> 'n info \<times> 'n ady \<Rightarrow> 'n info \<times> 'n ady" where
  "paso_nodo nd st =
     (let nodo = fst nd; data = snd nd;
          x = (case x_attr data of None \<Rightarrow> 0 | Some v \<Rightarrow> v);
          y = (case y_attr data of None \<Rightarrow> 0 | Some v \<Rightarrow> v)
      in (AList.update nodo (x, y) (fst st), AList.update nodo [] (snd st)))"

fun extraer_nodos :: "('n \<times> datos_nodo) list \<Rightarrow> 'n info \<times> 'n ady \<Rightarrow> 'n info \<times> 'n ady" where
  "extraer_nodos [] st = st"
| "extraer_nodos (nd # nds) st = extraer_nodos nds (paso_nodo nd st)"

text \<open>\<open>lista_ady[k].append(e)\<close>: KeyError when \<open>k\<close> has no entry.\<close>

definition agregar :: "'n ady \<Rightarrow> 'n \<Rightarrow> 'n vecino_info \<Rightarrow> py_error + 'n ady" where
  "agregar lista_ady k e =
     (case getitem lista_ady k of
        Inl err \<Rightarrow> Inl err
      | Inr es \<Rightarrow> Inr (AList.update k (es @ [e]) lista_ady))"

text \<open>\<open>data.get('oneway', None)\<close> and the test \<open>oneway in (False, 'false', 'False', 0, None)\<close>.\<close>

definition oneway_de :: "datos_arista \<Rightarrow> py_val" where
  "oneway_de data = (case oneway_attr data of None \<Rightarrow> PNone | Some v \<Rightarrow> v)"

definition doble_sentido :: "datos_arista \<Rightarrow> bool" where
  "doble_sentido data =
     py_in (oneway_de data) [PBool False, PStr ''false'', PStr ''False'', PInt 0, PNone]"

definition length_de :: "datos_arista \<Rightarrow> rat" where
  "length_de data = (case length_attr data of None \<Rightarrow> 100 | Some l \<Rightarrow> l)"

text \<open>One turn of the loop over \<open>grafo_osm.edges(data=True, keys=True)\<close>.\<close>

definition procesar_arista :: "'n ady \<Rightarrow> 'n \<times> 'n \<times> datos_arista \<Rightarrow> py_error + 'n ady" where
  "procesar_arista lista_ady ar =
     (let u = fst ar; v = fst (snd ar); data = snd (snd ar);
          length = length_de data
      in case metros_a_minutos length of
           Inl e \<Rightarrow> Inl e
         | Inr tiempo \<Rightarrow>
             (case agregar lista_ady u (v, length, tiempo) of
                Inl e \<Rightarrow> Inl e
              | Inr la1 \<Rightarrow>
                  if doble_sentido data then agregar la1 v (u, length, tiempo)
                  else Inr la1))"

fun extraer_aristas :: "('n \<times> 'n \<times> datos_arista) list \<Rightarrow> 'n ady \<Rightarrow> py_error + 'n ady" where
  "extraer_aristas [] lista_ady = Inr lista_ady"
| "extraer_aristas (ar # ars) lista_ady =
     (case procesar_arista lista_ady ar of
        Inl e \<Rightarrow> Inl e
      | Inr la1 \<Rightarrow> extraer_aristas ars la1)"

definition construir ::
  "('n \<times> datos_nodo) list \<Rightarrow> ('n \<times> 'n \<times> datos_arista) list \<Rightarrow> py_error + ('n info \<times> 'n ady)" where
  "construir nodos aristas =
     (let st = extraer_nodos nodos ([], [])
      in case extraer_aristas aristas (snd st) of
           Inl e \<Rightarrow> Inl e
         | Inr lista_ady \<Rightarrow> Inr (fst st, lista_ady))"

text \<open>Two abbreviations used in the statements below: the pair stored for a node, and the
  entries one edge adds to the list of node \<open>k\<close>.\<close>

definition coordenadas :: "datos_nodo \<Rightarrow> rat \<times> rat" where
  "coordenadas data =
     ((case x_attr data of None \<Rightarrow> 0 | Some v \<Rightarrow> v), (case y_attr data of None \<Rightarrow> 0 | Some v \<Rightarrow> v))"

definition entradas :: "'n \<Rightarrow> 'n \<Rightarrow> datos_arista \<Rightarrow> rat \<Rightarrow> 'n \<Rightarrow> 'n vecino_info list" where
  "entradas u v data t k =
     (if k = u then [(v, length_de data, t)] else [])
     @ (if doble_sentido data \<and> k = v then [(u, length_de data, t)] else [])"

subsection \<open>Breadth-first search and the components\<close>

text \<open>The loop over the neighbours of the node taken from the queue.\<close>

fun encolar_vecinos :: "'n vecino_info list \<Rightarrow> 'n list \<times> 'n set \<Rightarrow> 'n list \<times> 'n set" where
  "encolar_vecinos [] st = st"
| "encolar_vecinos (vecino_info # resto) st =
     (let vecino = fst vecino_info
      in if vecino \<notin> snd st
         then encolar_vecinos resto (fst st @ [vecino], insert vecino (snd st))
         else encolar_vecinos resto st)"

text \<open>All the nodes that occur as a neighbour somewhere in the adjacency.\<close>

definition vecinos_de :: "'n ady \<Rightarrow> 'n set" where
  "vecinos_de grafo_adj = (\<Union>vs \<in> snd ` set grafo_adj. fst ` set vs)"

text \<open>The \<open>while colaAuxiliar\<close> loop of \<open>BFS_componente\<close>.\<close>

function bfs_bucle :: "'n ady \<Rightarrow> 'n list \<Rightarrow> 'n set \<Rightarrow> 'n set" where
  "bfs_bucle grafo_adj [] visitados = visitados"
| "bfs_bucle grafo_adj (nodo # cola) visitados =
     bfs_bucle grafo_adj
       (fst (encolar_vecinos (get_or grafo_adj nodo []) (cola, visitados)))
       (snd (encolar_vecinos (get_or grafo_adj nodo []) (cola, visitados)))"
  by pat_completeness auto

termination
proof (relation "inv_image (less_than <*lex*> less_than)
    (\<lambda>(g, cola, vis). (card (vecinos_de g - vis), length cola))")
  show "wf (inv_image (less_than <*lex*> less_than)
    (\<lambda>(g :: 'n ady, cola :: 'n list, vis). (card (vecinos_de g - vis), length cola)))"
    by (intro wf_inv_image wf_lex_prod wf_less_than)
next
  fix grafo_adj :: "'n ady" and nodo cola visitados
  let ?vs = "get_or grafo_adj nodo []"
  let ?U = "vecinos_de grafo_adj"
  have encolar_vecinos_visitados:
    "snd (encolar_vecinos vs st) = snd st \<union> fst ` set vs" for vs :: "'n vecino_info list" and st
    by (induction vs arbitrary: st) (auto simp: Let_def)
  have encolar_vecinos_cola:
    "fst (encolar_vecinos vs st) = fst st" if "fst ` set vs \<subseteq> snd st"
    for vs :: "'n vecino_info list" and st
    using that by (induction vs arbitrary: st) (auto simp: Let_def)
  have fin: "finite ?U"
    by (simp add: vecinos_de_def)
  have sub: "fst ` set ?vs \<subseteq> ?U"
  proof (cases "map_of grafo_adj nodo")
    case None
    then show ?thesis by (simp add: get_or_def)
  next
    case (Some vs)
    then have "(nodo, vs) \<in> set grafo_adj"
      by (rule map_of_SomeD)
    then have "vs \<in> snd ` set grafo_adj"
      by force
    then show ?thesis
      using Some by (auto simp: get_or_def vecinos_de_def)
  qed
  show "((grafo_adj, fst (encolar_vecinos ?vs (cola, visitados)),
          snd (encolar_vecinos ?vs (cola, visitados))),
         (grafo_adj, nodo # cola, visitados))
        \<in> inv_image (less_than <*lex*> less_than)
            (\<lambda>(g, cola, vis). (card (vecinos_de g - vis), length cola))"
  proof (cases "fst ` set ?vs \<subseteq> visitados")
    case True
    then have "fst (encolar_vecinos ?vs (cola, visitados)) = cola"
      using encolar_vecinos_cola [of ?vs "(cola, visitados)"] by simp
    moreover have "snd (encolar_vecinos ?vs (cola, visitados)) = visitados"
      using True by (auto simp: encolar_vecinos_visitados)
    ultimately show ?thesis by simp
  next
    case False
    then obtain w where w: "w \<in> fst ` set ?vs" "w \<notin> visitados"
      by blast
    have "?U - (visitados \<union> fst ` set ?vs) \<subset> ?U - visitados"
      using w sub by blast
    then have "card (?U - (visitados \<union> fst ` set ?vs)) < card (?U - visitados)"
      using fin by (simp add: psubset_card_mono)
    then show ?thesis
      by (simp add: encolar_vecinos_visitados)
  qed
qed

definition BFS_componente :: "'n ady \<Rightarrow> 'n \<Rightarrow> 'n set" where
  "BFS_componente grafo_adj inicio = bfs_bucle grafo_adj [inicio] {inicio}"

text \<open>
  The loop that collects the components. It runs over the set \<open>todos_nodos\<close>; the order
  in which Python enumerates a set is not specified, so the loop takes the enumeration
  as a list.
\<close>

fun descubrir :: "'n ady \<Rightarrow> 'n list \<Rightarrow> 'n set list \<times> 'n set \<Rightarrow> 'n set list \<times> 'n set" where
  "descubrir lista_ady [] st = st"
| "descubrir lista_ady (nodo # resto) st =
     (if nodo \<notin> snd st
      then (let comp = BFS_componente lista_ady nodo
            in descubrir lista_ady resto (fst st @ [comp], snd st \<union> comp))
      else descubrir lista_ady resto st)"

text \<open>
  \<open>iter\<close> stands for the enumeration order of Python sets: \<open>iter S\<close> lists the elements of
  the set \<open>S\<close> in the order a \<open>for\<close> loop over it meets them.
\<close>

definition componentes_de :: "('n set \<Rightarrow> 'n list) \<Rightarrow> 'n ady \<Rightarrow> 'n set list" where
  "componentes_de iter lista_ady =
     (let todos_nodos = set (keys lista_ady)
      in fst (descubrir lista_ady (iter todos_nodos) ([], {})))"

subsection \<open>Choosing the main component\<close>

text \<open>
  The components are sorted as tuples \<open>(len(comp), comp)\<close> with \<open>sort(reverse=True)\<close>.
  Python compares tuples by their first differing position; on sets \<open><\<close> is proper
  inclusion.
\<close>

definition tupla_lt :: "nat \<times> 'n set \<Rightarrow> nat \<times> 'n set \<Rightarrow> bool" where
  "tupla_lt a b = (if fst a \<noteq> fst b then fst a < fst b else snd a \<subset> snd b)"

text \<open>
  \<open>list.sort\<close> is a stable sort that asks only for \<open><\<close>: an element is placed behind
  every element that is not greater than it. With \<open>reverse=True\<close> the list is reversed,
  sorted, and reversed again.
\<close>

fun insertar :: "nat \<times> 'n set \<Rightarrow> (nat \<times> 'n set) list \<Rightarrow> (nat \<times> 'n set) list" where
  "insertar x [] = [x]"
| "insertar x (y # ys) = (if tupla_lt x y then x # y # ys else y # insertar x ys)"

definition py_sort :: "(nat \<times> 'n set) list \<Rightarrow> (nat \<times> 'n set) list" where
  "py_sort xs = foldl (\<lambda>acc x. insertar x acc) [] xs"

definition py_sort_reverse :: "(nat \<times> 'n set) list \<Rightarrow> (nat \<times> 'n set) list" where
  "py_sort_reverse xs = rev (py_sort (rev xs))"

definition ordenar_componentes :: "'n set list \<Rightarrow> 'n set list" where
  "ordenar_componentes componentes =
     (let componentes_con_tamanio = map (\<lambda>comp. (card comp, comp)) componentes
      in map snd (py_sort_reverse componentes_con_tamanio))"

definition componente_principal :: "'n set list \<Rightarrow> 'n set" where
  "componente_principal componentes = (case componentes of [] \<Rightarrow> {} | c # _ \<Rightarrow> c)"

subsection \<open>Reducing the graph to the main component\<close>

fun reducir_ady :: "'n ady \<Rightarrow> 'n set \<Rightarrow> 'n list \<Rightarrow> 'n ady \<Rightarrow> py_error + 'n ady" where
  "reducir_ady lista_ady cp [] nueva_lista_ady = Inr nueva_lista_ady"
| "reducir_ady lista_ady cp (nodo # resto) nueva_lista_ady =
     (case getitem lista_ady nodo of
        Inl e \<Rightarrow> Inl e
      | Inr vs \<Rightarrow>
          reducir_ady lista_ady cp resto
            (AList.update nodo (filter (\<lambda>vecino_info. fst vecino_info \<in> cp) vs) nueva_lista_ady))"

fun reducir_info :: "'n info \<Rightarrow> 'n list \<Rightarrow> 'n info \<Rightarrow> py_error + 'n info" where
  "reducir_info nodos_info [] nueva_nodos_info = Inr nueva_nodos_info"
| "reducir_info nodos_info (nodo # resto) nueva_nodos_info =
     (case getitem nodos_info nodo of
        Inl e \<Rightarrow> Inl e
      | Inr xy \<Rightarrow> reducir_info nodos_info resto (AList.update nodo xy nueva_nodos_info))"

definition principal :: "('n set \<Rightarrow> 'n list) \<Rightarrow> 'n ady \<Rightarrow> 'n set" where
  "principal iter lista_ady =
     componente_principal (ordenar_componentes (componentes_de iter lista_ady))"

text \<open>
  The reducer enumerates two sets: \<open>todos_nodos\<close>, to collect the components, and
  \<open>componente_principal\<close>, twice, to rebuild the two dictionaries. Python may enumerate
  sets with the same elements in different orders, so each of the two loops has its own
  enumeration, \<open>iter\<close> and \<open>iter_cp\<close>.
\<close>

definition reducir ::
  "('n set \<Rightarrow> 'n list) \<Rightarrow> ('n set \<Rightarrow> 'n list) \<Rightarrow> 'n info \<Rightarrow> 'n ady
     \<Rightarrow> py_error + ('n info \<times> 'n ady)" where
  "reducir iter iter_cp nodos_info lista_ady =
     (let componentes = ordenar_componentes (componentes_de iter lista_ady);
          cp = componente_principal componentes
      in if length componentes \<le> 1 then Inr (nodos_info, lista_ady)
         else (case reducir_ady lista_ady cp (iter_cp cp) [] of
                 Inl e \<Rightarrow> Inl e
               | Inr nueva_lista_ady \<Rightarrow>
                   (case reducir_info nodos_info (iter_cp cp) [] of
                      Inl e \<Rightarrow> Inl e
                    | Inr nueva_nodos_info \<Rightarrow> Inr (nueva_nodos_info, nueva_lista_ady))))"

subsection \<open>Sampling a subgraph of 100 nodes\<close>

text \<open>
  The sampler draws from Python's \<open>random\<close> module. The source of randomness is an
  explicit state here: the list of the raw draws still to come (an exhausted list keeps
  answering 0). \<open>randbelow n\<close> is a draw below \<open>n\<close>; \<open>choice\<close> and \<open>shuffle\<close> use it the way
  the library does: \<open>choice\<close> indexes the sequence with one draw and raises IndexError on
  an empty one, \<open>shuffle\<close> swaps position \<open>i\<close>, from the last down to 1, with a position
  drawn below \<open>i + 1\<close>.
\<close>

type_synonym rng = "nat list"

definition randbelow :: "nat \<Rightarrow> rng \<Rightarrow> nat \<times> rng" where
  "randbelow n rng = (case rng of [] \<Rightarrow> (0, []) | r # rs \<Rightarrow> (r mod n, rs))"

definition choice :: "'a list \<Rightarrow> rng \<Rightarrow> py_error + ('a \<times> rng)" where
  "choice seq rng =
     (if seq = [] then Inl IndexError
      else (let jr = randbelow (length seq) rng in Inr (seq ! fst jr, snd jr)))"

fun shuffle_pasos :: "nat \<Rightarrow> 'a list \<Rightarrow> rng \<Rightarrow> 'a list \<times> rng" where
  "shuffle_pasos 0 x rng = (x, rng)"
| "shuffle_pasos (Suc k) x rng =
     (let i = Suc k; jr = randbelow (i + 1) rng; j = fst jr
      in shuffle_pasos k (x[i := x ! j, j := x ! i]) (snd jr))"

definition shuffle :: "'a list \<Rightarrow> rng \<Rightarrow> 'a list \<times> rng" where
  "shuffle x rng = shuffle_pasos (length x - 1) x rng"

text \<open>The loop over the shuffled neighbours; \<open>tam\<close> is \<open>len(subgrafo_nodos)\<close>.\<close>

fun encolar_muestra :: "'n list \<Rightarrow> nat \<Rightarrow> 'n list \<times> 'n set \<Rightarrow> 'n list \<times> 'n set" where
  "encolar_muestra [] tam st = st"
| "encolar_muestra (vec # resto) tam st =
     (if vec \<notin> snd st \<and> tam + length (fst st) < 1000
      then encolar_muestra resto tam (fst st @ [vec], insert vec (snd st))
      else encolar_muestra resto tam st)"

text \<open>The \<open>while\<close> loop that fills \<open>subgrafo_nodos\<close>.\<close>

function muestreo_bucle ::
  "'n ady \<Rightarrow> 'n list \<Rightarrow> 'n list \<Rightarrow> 'n set \<Rightarrow> rng \<Rightarrow> 'n list \<times> rng" where
  "muestreo_bucle lista_ady colaAuxiliar subgrafo_nodos visitados_local rng =
     (if length colaAuxiliar > 0 \<and> length subgrafo_nodos < 100
      then (let nodo = hd colaAuxiliar;
                cola1 = tl colaAuxiliar;
                sub1 = subgrafo_nodos @ [nodo];
                vecinos = map fst (get_or lista_ady nodo []);
                vr = shuffle vecinos rng;
                st = encolar_muestra (fst vr) (length sub1) (cola1, visitados_local)
            in muestreo_bucle lista_ady (fst st) sub1 (snd st) (snd vr))
      else (subgrafo_nodos, rng))"
  by pat_completeness auto

termination
  by (relation "measure (\<lambda>(g, cola, sub, vis, rng). 100 - length sub)") auto

declare muestreo_bucle.simps [simp del]

definition subgrafo_nodos_de :: "'n ady \<Rightarrow> rng \<Rightarrow> py_error + ('n list \<times> rng)" where
  "subgrafo_nodos_de lista_ady rng =
     (if length lista_ady \<le> 100 then Inr (keys lista_ady, rng)
      else (let lista_nodos = keys lista_ady
            in case choice lista_nodos rng of
                 Inl e \<Rightarrow> Inl e
               | Inr cr \<Rightarrow>
                   (let nodo_inicio = fst cr;
                        sr = muestreo_bucle lista_ady [nodo_inicio] [] {nodo_inicio} (snd cr);
                        sub = fst sr
                    in if length sub < 100
                       then (let faltan = 100 - length sub;
                                 extras = filter (\<lambda>n. n \<notin> set sub) (keys lista_ady);
                                 er = shuffle extras (snd sr)
                             in Inr (sub @ take (min faltan (length (fst er))) (fst er), snd er))
                       else Inr (sub, snd sr))))"

subsection \<open>The converter\<close>

lemma dos_pos: "0 < power_int (2::rat) n"
  by (simp add: power_int_def)

lemma dos_suma: "power_int (2::rat) (m + n) = power_int 2 m * power_int 2 n"
  by (simp add: power_int_add)

lemma dos_Suc: "power_int (2::rat) (n + 1) = 2 * power_int 2 n"
  by (simp add: power_int_add)

lemma dos_mono: "m \<le> n \<Longrightarrow> power_int (2::rat) m \<le> power_int 2 n"
  by (simp add: power_int_increasing)

lemma dos_strict: "m < n \<Longrightarrow> power_int (2::rat) m < power_int 2 n"
  by (simp add: power_int_strict_increasing)

lemma dos_le_D: "power_int (2::rat) m < power_int 2 n \<Longrightarrow> m < n"
  using dos_mono [of n m] by (cases "m < n") auto

lemma dos_nat: "0 \<le> n \<Longrightarrow> power_int (2::rat) n = of_int (2 ^ nat n)"
  by (simp add: power_int_def)

lemma exponente_cotas:
  assumes "x \<noteq> 0"
  shows "power_int 2 (exponente x) \<le> \<bar>x\<bar> \<and> \<bar>x\<bar> < power_int 2 (exponente x + 1)"
proof -
  define a where "a = \<bar>x\<bar>"
  have a: "0 < a" using assms by (simp add: a_def)
  obtain p q where pq: "quotient_of a = (p, q)"
    by (cases "quotient_of a") auto
  have q: "0 < q" using pq by (rule quotient_of_denom_pos)
  have aq: "a = of_int p / of_int q" using pq by (rule quotient_of_div)
  have p: "0 < p"
    using a q aq by (simp add: zero_less_divide_iff)
  define bp where "bp = bitlen p"
  define bq where "bq = bitlen q"
  have bp1: "1 \<le> bp" and bq1: "1 \<le> bq"
    using p q bitlen_eq_zero_iff [of p] bitlen_eq_zero_iff [of q] bitlen_nonneg [of p] bitlen_nonneg [of q]
    by (auto simp: bp_def bq_def)
  have "2 ^ nat (bp - 1) \<le> p" "p < 2 ^ nat bp" "2 ^ nat (bq - 1) \<le> q" "q < 2 ^ nat bq"
    using bitlen_bounds [OF p] bitlen_bounds [OF q] by (simp_all add: bp_def bq_def)
  then have "(of_int (2 ^ nat (bp - 1)) :: rat) \<le> of_int p" "(of_int p :: rat) < of_int (2 ^ nat bp)"
    "(of_int (2 ^ nat (bq - 1)) :: rat) \<le> of_int q" "(of_int q :: rat) < of_int (2 ^ nat bq)"
    unfolding of_int_le_iff of_int_less_iff by simp_all
  then have P: "power_int 2 (bp - 1) \<le> (of_int p :: rat)" "(of_int p :: rat) < power_int 2 bp"
    and Q: "power_int 2 (bq - 1) \<le> (of_int q :: rat)" "(of_int q :: rat) < power_int 2 bq"
    using bp1 bq1 by (simp_all add: dos_nat)
  have qp: "(0::rat) < of_int q" using q by simp
  have up: "a < power_int 2 (bp - bq + 1)"
  proof -
    have "a * of_int q = of_int p" using aq qp by simp
    also have "\<dots> < power_int 2 bp" by (rule P(2))
    also have "\<dots> = power_int 2 (bp - bq + 1) * power_int 2 (bq - 1)"
      by (simp add: dos_suma [symmetric])
    also have "\<dots> \<le> power_int 2 (bp - bq + 1) * of_int q"
      using Q(1) dos_pos [of "bp - bq + 1"] by (simp add: mult_left_mono)
    finally show ?thesis using qp by simp
  qed
  have lo: "power_int 2 (bp - bq - 1) < a"
  proof -
    have "power_int 2 (bp - bq - 1) * (of_int q :: rat) < power_int 2 (bp - bq - 1) * power_int 2 bq"
      using Q(2) dos_pos [of "bp - bq - 1"] by (simp add: mult_strict_left_mono)
    also have "\<dots> = power_int 2 (bp - 1)"
      by (simp add: dos_suma [symmetric])
    also have "\<dots> \<le> of_int p" by (rule P(1))
    also have "\<dots> = a * of_int q" using aq qp by simp
    finally show ?thesis using qp by simp
  qed
  have e: "exponente x = (if power_int 2 (bp - bq) \<le> a then bp - bq else bp - bq - 1)"
    using pq by (simp add: exponente_def a_def [symmetric] bp_def bq_def Let_def)
  show ?thesis
  proof (cases "power_int 2 (bp - bq) \<le> a")
    case True
    with e up show ?thesis by (simp add: a_def)
  next
    case False
    with e lo show ?thesis by (simp add: a_def)
  qed
qed

lemma exponente_unico:
  assumes "power_int 2 n \<le> \<bar>x\<bar>" and "\<bar>x\<bar> < power_int 2 (n + 1)"
  shows "exponente x = n"
proof -
  have "0 < \<bar>x\<bar>"
    using dos_pos [of n] assms(1) by (rule less_le_trans)
  then have "x \<noteq> 0" by simp
  from exponente_cotas [OF this] have lo: "power_int 2 (exponente x) \<le> \<bar>x\<bar>"
    and up: "\<bar>x\<bar> < power_int 2 (exponente x + 1)"
    by simp_all
  have "power_int (2::rat) n < power_int 2 (exponente x + 1)"
    using assms(1) up by simp
  then have "n < exponente x + 1" by (rule dos_le_D)
  moreover have "power_int (2::rat) (exponente x) < power_int 2 (n + 1)"
    using lo assms(2) by simp
  then have "exponente x < n + 1" by (rule dos_le_D)
  ultimately show ?thesis by simp
qed

lemma exponente_doble: "x \<noteq> 0 \<Longrightarrow> exponente (2 * x) = exponente x + 1"
proof -
  assume "x \<noteq> 0"
  from exponente_cotas [OF this] have lo: "power_int 2 (exponente x) \<le> \<bar>x\<bar>"
    and up: "\<bar>x\<bar> < power_int 2 (exponente x + 1)"
    by simp_all
  have "power_int 2 (exponente x + 1) \<le> \<bar>2 * x\<bar>"
    using lo by (simp add: dos_Suc abs_mult)
  moreover have "\<bar>2 * x\<bar> < power_int 2 (exponente x + 1 + 1)"
    using up dos_Suc [of "exponente x + 1"] by (simp add: abs_mult)
  ultimately show ?thesis
    by (rule exponente_unico)
qed

lemma py_float_doble:
  assumes "x \<noteq> 0" and "- 1022 \<le> exponente x"
  shows "py_float (2 * x) = 2 * py_float x"
proof -
  let ?q = "exponente x - 52"
  have e2: "exponente (2 * x) = exponente x + 1"
    using assms(1) by (rule exponente_doble)
  have q: "max ?q (- 1074) = ?q" and q2: "max (exponente (2 * x) - 52) (- 1074) = ?q + 1"
    using assms(2) e2 by simp_all
  have d: "power_int (2::rat) (?q + 1) = 2 * power_int 2 ?q"
    by (rule dos_Suc)
  have nz: "2 * x \<noteq> 0"
    using assms(1) by simp
  have "py_float (2 * x)
      = of_int (round_half_even (2 * x / power_int 2 (?q + 1))) * power_int 2 (?q + 1)"
    unfolding py_float_def Let_def q2 using nz by (simp only: if_False)
  also have "\<dots> = of_int (round_half_even (x / power_int 2 ?q)) * (2 * power_int 2 ?q)"
    unfolding d by simp
  also have "\<dots> = 2 * (of_int (round_half_even (x / power_int 2 ?q)) * power_int 2 ?q)"
    by simp
  also have "of_int (round_half_even (x / power_int 2 ?q)) * power_int 2 ?q = py_float x"
    unfolding py_float_def Let_def q using assms(1) by (simp only: if_False)
  finally show ?thesis .
qed

lemma round_half_even_near: "\<bar>of_int (round_half_even y) - y\<bar> \<le> 1 / 2"
proof -
  have "of_int \<lfloor>y\<rfloor> \<le> y" and "y < of_int \<lfloor>y\<rfloor> + 1"
    by linarith+
  then show ?thesis
    unfolding round_half_even_def Let_def by (simp split: if_splits)
qed

lemma round_half_even_unico:
  assumes "\<bar>y - of_int j\<bar> < 1 / 2"
  shows "round_half_even y = j"
proof -
  have "\<bar>of_int (round_half_even y) - y\<bar> \<le> 1 / 2"
    by (rule round_half_even_near)
  with assms have "\<bar>of_int (round_half_even y) - (of_int j :: rat)\<bar> < 1"
    by linarith
  then have "\<bar>(of_int (round_half_even y - j) :: rat)\<bar> < of_int 1"
    by simp
  then have "\<bar>round_half_even y - j\<bar> < 1"
    unfolding of_int_abs [symmetric] of_int_less_iff .
  then show ?thesis by simp
qed

lemma round_half_even_of_int [simp]: "round_half_even (of_int k) = k"
  by (rule round_half_even_unico) simp

lemma round_half_even_cota:
  assumes "\<bar>y\<bar> \<le> of_int N"
  shows "\<bar>round_half_even y\<bar> \<le> N"
proof -
  have "\<bar>of_int (round_half_even y) - y\<bar> \<le> 1 / 2"
    by (rule round_half_even_near)
  with assms have "\<bar>(of_int (round_half_even y) :: rat)\<bar> < of_int N + 1"
    by linarith
  then have "\<bar>(of_int (round_half_even y) :: rat)\<bar> < of_int (N + 1)"
    by simp
  then have "\<bar>round_half_even y\<bar> < N + 1"
    unfolding of_int_abs [symmetric] of_int_less_iff .
  then show ?thesis by simp
qed

lemma round_half_even_double: "\<bar>round_half_even (2 * y) - 2 * round_half_even y\<bar> \<le> 1"
proof -
  have a: "\<bar>of_int (round_half_even (2 * y)) - 2 * y\<bar> \<le> 1 / 2"
    by (rule round_half_even_near)
  have b: "\<bar>of_int (round_half_even y) - y\<bar> \<le> 1 / 2"
    by (rule round_half_even_near)
  have "\<bar>of_int (round_half_even (2 * y)) - 2 * (of_int (round_half_even y) :: rat)\<bar> < 2"
    using a b by linarith
  then have "\<bar>(of_int (round_half_even (2 * y) - 2 * round_half_even y) :: rat)\<bar> < of_int 2"
    by simp
  then have "\<bar>round_half_even (2 * y) - 2 * round_half_even y\<bar> < 2"
    unfolding of_int_abs [symmetric] of_int_less_iff .
  then show ?thesis by simp
qed

lemma exponente_le:
  assumes "x \<noteq> 0" and "\<bar>x\<bar> \<le> power_int 2 j"
  shows "exponente x \<le> j"
proof -
  have "power_int 2 (exponente x) \<le> \<bar>x\<bar>"
    using exponente_cotas [OF assms(1)] by simp
  with assms(2) have "power_int (2::rat) (exponente x) < power_int 2 (j + 1)"
    using dos_strict [of j "j + 1"] by simp
  then have "exponente x < j + 1" by (rule dos_le_D)
  then show ?thesis by simp
qed

lemma exponente_ge:
  assumes "power_int 2 j \<le> \<bar>x\<bar>"
  shows "j \<le> exponente x"
proof -
  have "0 < \<bar>x\<bar>"
    using dos_pos [of j] assms by (rule less_le_trans)
  then have "x \<noteq> 0" by simp
  then have "\<bar>x\<bar> < power_int 2 (exponente x + 1)"
    using exponente_cotas by simp
  with assms have "power_int (2::rat) j < power_int 2 (exponente x + 1)"
    by simp
  then have "j < exponente x + 1" by (rule dos_le_D)
  then show ?thesis by simp
qed

text \<open>Rounding to a double never crosses a power of two that is itself a double.\<close>

lemma py_float_cota:
  assumes "\<bar>x\<bar> \<le> power_int 2 j" and "- 1074 \<le> j"
  shows "\<bar>py_float x\<bar> \<le> power_int 2 j"
proof (cases "x = 0")
  case True
  then show ?thesis
    using dos_pos [of j] by (simp add: py_float_def)
next
  case False
  define q where "q = max (exponente x - 52) (- 1074)"
  have "exponente x \<le> j"
    using False assms(1) by (rule exponente_le)
  then have qj: "q \<le> j"
    using assms(2) by (simp add: q_def)
  define N :: int where "N = 2 ^ nat (j - q)"
  have N: "(of_int N :: rat) = power_int 2 (j - q)"
    using qj by (simp add: N_def dos_nat)
  have jq: "power_int (2::rat) j = power_int 2 (j - q) * power_int 2 q"
    by (simp add: dos_suma [symmetric])
  have "\<bar>x / power_int 2 q\<bar> = \<bar>x\<bar> / power_int 2 q"
    using dos_pos [of q] by (simp add: abs_divide)
  also have "\<dots> \<le> power_int 2 j / power_int 2 q"
    using assms(1) dos_pos [of q] by (simp add: divide_right_mono)
  also have "\<dots> = of_int N"
    using dos_pos [of q] by (simp add: N jq)
  finally have "\<bar>round_half_even (x / power_int 2 q)\<bar> \<le> N"
    by (rule round_half_even_cota)
  then have "\<bar>(of_int (round_half_even (x / power_int 2 q)) :: rat)\<bar> \<le> of_int N"
    unfolding of_int_abs [symmetric] of_int_le_iff .
  then have "\<bar>(of_int (round_half_even (x / power_int 2 q)) :: rat)\<bar> * power_int 2 q
      \<le> of_int N * power_int 2 q"
    using dos_pos [of q] by (simp add: mult_right_mono)
  moreover have "py_float x = of_int (round_half_even (x / power_int 2 q)) * power_int 2 q"
    using False by (simp add: py_float_def q_def Let_def)
  ultimately show ?thesis
    using dos_pos [of q] by (simp add: N jq abs_mult)
qed

text \<open>In the normal range a double is within a relative error of \<open>2 ^ - 53\<close>.\<close>

lemma py_float_error:
  assumes "power_int 2 (- 1022) \<le> \<bar>x\<bar>"
  shows "\<bar>py_float x - x\<bar> \<le> \<bar>x\<bar> / 2 ^ 53"
proof -
  have e: "- 1022 \<le> exponente x"
    using assms by (rule exponente_ge)
  have nz: "x \<noteq> 0"
    using dos_pos [of "- 1022"] assms by auto
  define q where "q = exponente x - 52"
  have m: "max (exponente x - 52) (- 1074) = q"
    using e by (simp add: q_def)
  let ?y = "x / power_int 2 q"
  have f: "py_float x = of_int (round_half_even ?y) * power_int 2 q"
    using nz by (simp add: py_float_def m Let_def)
  have "py_float x - x = (of_int (round_half_even ?y) - ?y) * power_int 2 q"
    using dos_pos [of q] by (simp add: f field_simps)
  then have "\<bar>py_float x - x\<bar> = \<bar>of_int (round_half_even ?y) - ?y\<bar> * power_int 2 q"
    using dos_pos [of q] by (simp add: abs_mult)
  also have "\<dots> \<le> 1 / 2 * power_int 2 q"
    using round_half_even_near [of ?y] dos_pos [of q] by (simp add: mult_right_mono)
  also have "\<dots> = power_int 2 (exponente x) / 2 ^ 53"
  proof -
    have "power_int (2::rat) (q + 52) = power_int 2 q * power_int 2 52"
      by (rule dos_suma)
    moreover have "q + 52 = exponente x"
      by (simp add: q_def)
    moreover have "power_int (2::rat) 52 = 2 ^ 52"
      by (simp add: power_int_def)
    ultimately have "power_int (2::rat) (exponente x) = power_int 2 q * 2 ^ 52"
      by simp
    then show ?thesis by simp
  qed
  also have "\<dots> \<le> \<bar>x\<bar> / 2 ^ 53"
    using exponente_cotas [OF nz] by (simp add: divide_right_mono)
  finally show ?thesis .
qed

lemma py_float_0 [simp]: "py_float 0 = 0"
  by (simp add: py_float_def)

lemma metros_a_minutos_eq: "metros_a_minutos d = Inr (py_round2 (minutos_de d))"
  by (simp add: metros_a_minutos_def py_truediv_def py_mul_def minutos_de_def velocidad_kmh_def)

text \<open>Doubling commutes with rounding to a double, unless the numbers are tiny.\<close>

lemma paso_float:
  assumes "b = 2 * a \<or> (\<bar>a\<bar> \<le> power_int 2 j \<and> \<bar>b\<bar> \<le> power_int 2 j)" and "- 1021 \<le> j"
  shows "py_float b = 2 * py_float a
     \<or> (\<bar>py_float a\<bar> \<le> power_int 2 j \<and> \<bar>py_float b\<bar> \<le> power_int 2 j)"
proof -
  have j: "- 1074 \<le> j" using assms(2) by simp
  have tiny: ?thesis if "\<bar>a\<bar> \<le> power_int 2 j" and "\<bar>b\<bar> \<le> power_int 2 j"
    using py_float_cota [OF that(1) j] py_float_cota [OF that(2) j] by simp
  from assms(1) show ?thesis
  proof
    assume b: "b = 2 * a"
    show ?thesis
    proof (cases "a = 0")
      case True
      with b show ?thesis by simp
    next
      case False
      show ?thesis
      proof (cases "- 1022 \<le> exponente a")
        case True
        with False b show ?thesis by (simp add: py_float_doble)
      next
        case e: False
        have "\<bar>a\<bar> < power_int 2 (exponente a + 1)"
          using exponente_cotas [OF False] by simp
        also have "\<dots> \<le> power_int 2 (- 1022)"
          using e by (intro dos_mono) simp
        finally have a: "\<bar>a\<bar> < power_int 2 (- 1022)" .
        have "power_int (2::rat) (- 1021) = 2 * power_int 2 (- 1022)"
          using dos_Suc [of "- 1022"] by simp
        with a have "\<bar>b\<bar> < power_int 2 (- 1021)"
          by (simp add: b abs_mult)
        moreover have "power_int (2::rat) (- 1022) \<le> power_int 2 (- 1021)"
          by (intro dos_mono) simp
        moreover have "power_int (2::rat) (- 1021) \<le> power_int 2 j"
          using assms(2) by (rule dos_mono)
        ultimately have "\<bar>a\<bar> \<le> power_int 2 j" and "\<bar>b\<bar> \<le> power_int 2 j"
          using a by linarith+
        then show ?thesis by (rule tiny)
      qed
    qed
  next
    assume "\<bar>a\<bar> \<le> power_int 2 j \<and> \<bar>b\<bar> \<le> power_int 2 j"
    then show ?thesis using tiny by blast
  qed
qed

lemma paso_escala:
  fixes a b c :: rat
  assumes "b = 2 * a \<or> (\<bar>a\<bar> \<le> power_int 2 j \<and> \<bar>b\<bar> \<le> power_int 2 j)"
    and "\<bar>c\<bar> \<le> power_int 2 m"
  shows "b * c = 2 * (a * c)
     \<or> (\<bar>a * c\<bar> \<le> power_int 2 (j + m) \<and> \<bar>b * c\<bar> \<le> power_int 2 (j + m))"
proof -
  have "\<bar>x * c\<bar> \<le> power_int 2 (j + m)" if "\<bar>x\<bar> \<le> power_int 2 j" for x
  proof -
    have "\<bar>x * c\<bar> = \<bar>x\<bar> * \<bar>c\<bar>" by (rule abs_mult)
    also have "\<dots> \<le> power_int 2 j * power_int 2 m"
      using that assms(2) by (intro mult_mono) simp_all
    finally show ?thesis by (simp add: dos_suma)
  qed
  with assms(1) show ?thesis by auto
qed

lemma minutos_de_doble:
  "minutos_de (2 * d) = 2 * minutos_de d
   \<or> (\<bar>minutos_de d\<bar> \<le> power_int 2 (- 1015) \<and> \<bar>minutos_de (2 * d)\<bar> \<le> power_int 2 (- 1015))"
proof -
  have c1: "\<bar>1 / 1000 :: rat\<bar> \<le> power_int 2 0" by simp
  have c2: "\<bar>1 / 30 :: rat\<bar> \<le> power_int 2 0" by simp
  have c3: "\<bar>60 :: rat\<bar> \<le> power_int 2 6" by (simp add: power_int_def)
  have s0: "2 * d = 2 * d \<or> (\<bar>d\<bar> \<le> power_int 2 (- 1021) \<and> \<bar>2 * d\<bar> \<le> power_int 2 (- 1021))"
    by simp
  note s1 = paso_float [OF s0]
  note s2 = paso_escala [OF s1 c1]
  note s3 = paso_float [OF s2]
  note s4 = paso_escala [OF s3 c2]
  note s5 = paso_float [OF s4]
  note s6 = paso_escala [OF s5 c3]
  note s7 = paso_float [OF s6]
  from s7 show ?thesis
    by (simp add: minutos_de_def velocidad_kmh_def)
qed

lemma tiempos_casi_dobles:
  "\<bar>round_half_even (minutos_de (2 * d) * 100) - 2 * round_half_even (minutos_de d * 100)\<bar> \<le> 1"
proof -
  from minutos_de_doble [of d] show ?thesis
  proof
    assume "minutos_de (2 * d) = 2 * minutos_de d"
    then have "minutos_de (2 * d) * 100 = 2 * (minutos_de d * 100)"
      by simp
    then show ?thesis
      by (simp only: round_half_even_double)
  next
    assume t: "\<bar>minutos_de d\<bar> \<le> power_int 2 (- 1015) \<and> \<bar>minutos_de (2 * d)\<bar> \<le> power_int 2 (- 1015)"
    have "power_int (2::rat) (- 1015) \<le> power_int 2 (- 8)"
      by (intro dos_mono) simp
    also have "\<dots> = 1 / 256"
      by (simp add: power_int_def power_divide)
    finally have s: "power_int (2::rat) (- 1015) \<le> 1 / 256" .
    have a: "\<bar>minutos_de d * 100 - of_int 0\<bar> < 1 / 2"
      and b: "\<bar>minutos_de (2 * d) * 100 - of_int 0\<bar> < 1 / 2"
      using t s by (simp_all add: abs_mult)
    have "round_half_even (minutos_de d * 100) = 0" "round_half_even (minutos_de (2 * d) * 100) = 0"
      using a b by (simp_all only: round_half_even_unico)
    then show ?thesis by simp
  qed
qed

lemma py_float_rel:
  assumes "L \<le> x" and "x \<le> U" and "1 / 2 ^ 1000 \<le> L"
  shows "L * (1 - 1 / 2 ^ 53) \<le> py_float x \<and> py_float x \<le> U * (1 + 1 / 2 ^ 53)"
proof -
  have "power_int (2::rat) (- 1022) \<le> power_int 2 (- 1000)"
    by (intro dos_mono) simp
  also have "\<dots> = 1 / 2 ^ 1000"
    by (simp add: power_int_def power_divide)
  finally have n: "power_int (2::rat) (- 1022) \<le> 1 / 2 ^ 1000" .
  have "(0::rat) < 1 / 2 ^ 1000" by simp
  with assms have x: "0 < x" and xl: "1 / 2 ^ 1000 \<le> x" by linarith+
  then have "power_int 2 (- 1022) \<le> \<bar>x\<bar>"
    using n by linarith
  from py_float_error [OF this] x have e: "\<bar>py_float x - x\<bar> \<le> x / 2 ^ 53"
    by simp
  define r where "r = x / 2 ^ 53"
  have "\<bar>py_float x - x\<bar> \<le> r"
    using e by (simp add: r_def)
  then have C: "x - r \<le> py_float x" and D: "py_float x \<le> x + r"
    by linarith+
  have "L * (1 - 1 / 2 ^ 53) \<le> x * (1 - 1 / 2 ^ 53)"
    using assms(1) by (intro mult_right_mono) simp_all
  also have "\<dots> = x - r"
    by (simp add: r_def algebra_simps)
  also note C
  finally have lo: "L * (1 - 1 / 2 ^ 53) \<le> py_float x" .
  note D
  also have "x + r = x * (1 + 1 / 2 ^ 53)"
    by (simp add: r_def algebra_simps)
  also have "\<dots> \<le> U * (1 + 1 / 2 ^ 53)"
    using assms(2) by (intro mult_right_mono) simp_all
  finally have "py_float x \<le> U * (1 + 1 / 2 ^ 53)" .
  with lo show ?thesis by blast
qed

lemma minutos_de_cerca:
  assumes "1 / 1000 \<le> d"
  shows "\<bar>minutos_de d - d / 500\<bar> \<le> d / 500 / 2 ^ 50"
proof -
  let ?c = "1 + 1 / 2 ^ 53 :: rat" and ?c' = "1 - 1 / 2 ^ 53 :: rat"
  define a1 where "a1 = py_float d"
  define a2 where "a2 = py_float (a1 / 1000)"
  define a3 where "a3 = py_float (a2 / 30)"
  define a4 where "a4 = py_float (a3 * 60)"
  have m: "minutos_de d = a4"
    by (simp add: minutos_de_def velocidad_kmh_def a1_def a2_def a3_def a4_def)
  have d0: "0 \<le> d" using assms by simp
  have b1: "d * ?c' \<le> a1 \<and> a1 \<le> d * ?c"
    unfolding a1_def using assms by (intro py_float_rel) simp_all
  have l2: "1 / 2 ^ 1000 \<le> d * ?c' / 1000"
    using assms by simp
  have b2: "d * ?c' / 1000 * ?c' \<le> a2 \<and> a2 \<le> d * ?c / 1000 * ?c"
    unfolding a2_def using b1 l2 by (intro py_float_rel) simp_all
  have l3: "1 / 2 ^ 1000 \<le> d * ?c' / 1000 * ?c' / 30"
    using assms by simp
  have b3: "d * ?c' / 1000 * ?c' / 30 * ?c' \<le> a3 \<and> a3 \<le> d * ?c / 1000 * ?c / 30 * ?c"
    unfolding a3_def using b2 l3 by (intro py_float_rel) simp_all
  have l4: "1 / 2 ^ 1000 \<le> d * ?c' / 1000 * ?c' / 30 * ?c' * 60"
    using assms by simp
  have b4: "d * ?c' / 1000 * ?c' / 30 * ?c' * 60 * ?c' \<le> a4
      \<and> a4 \<le> d * ?c / 1000 * ?c / 30 * ?c * 60 * ?c"
    unfolding a4_def using b3 l4 by (intro py_float_rel) simp_all
  define A where "A = d / 500"
  define B where "B = d / 500 / 2 ^ 50"
  have "A - B \<le> d * ?c' / 1000 * ?c' / 30 * ?c' * 60 * ?c'"
    using d0 by (simp add: A_def B_def)
  also have "\<dots> \<le> a4"
    using b4 by (rule conjunct1)
  finally have lo: "A - B \<le> a4" .
  have "a4 \<le> d * ?c / 1000 * ?c / 30 * ?c * 60 * ?c"
    using b4 by (rule conjunct2)
  also have "\<dots> \<le> A + B"
    using d0 by (simp add: A_def B_def)
  finally have hi: "a4 \<le> A + B" .
  from lo hi have "\<bar>a4 - A\<bar> \<le> B"
    by linarith
  then show ?thesis
    by (simp only: m A_def B_def)
qed

lemma py_round2_forma:
  "\<exists>k. py_round2 m = py_float (of_int k / 100) \<and> k = round_half_even (m * 100)
     \<and> \<bar>of_int k / 100 - m\<bar> \<le> 1 / 200"
proof -
  have "\<bar>of_int (round_half_even (m * 100)) - m * 100\<bar> \<le> 1 / 2"
    by (rule round_half_even_near)
  then have "\<bar>of_int (round_half_even (m * 100)) / 100 - m\<bar> \<le> 1 / 200"
    by linarith
  then show ?thesis
    by (simp add: py_round2_def)
qed

text \<open>Lengths whose exact time lies halfway between two hundredths, on the floats.\<close>

lemma metros_a_minutos_medios:
  "metros_a_minutos (5 / 2) = Inr (py_float (1 / 100))
   \<and> metros_a_minutos (15 / 2) = Inr (py_float (1 / 100))
   \<and> metros_a_minutos (25 / 2) = Inr (py_float (3 / 100))"
  by code_simp

text \<open>
  C8. For every float \<open>dist_m\<close>, a number of magnitude at most \<open>max_double\<close>, the
  converter returns without raising. Its result is the
  float of a whole number of hundredths of a minute, the hundredth nearest to the float
  \<open>(dist_m / 1000.0 / velocidad_kmh) * 60.0\<close>; and from one millimetre on that hundredth is
  within half a hundredth, and a relative error of \<open>2 ^ - 50\<close>, of the exact time
  \<open>(dist_m / 1000 / velocidad_kmh) * 60\<close>.
\<close>

theorem metros_a_minutos_contract:
  assumes "\<bar>dist_m\<bar> \<le> max_double"
  shows "\<exists>t k. metros_a_minutos dist_m = Inr t
      \<and> t = py_float (of_int k / 100)
      \<and> \<bar>of_int k / 100 - minutos_de dist_m\<bar> \<le> 1 / 200
      \<and> minutos_de dist_m
          = py_float (py_float (py_float (py_float dist_m / 1000) / velocidad_kmh) * 60)
      \<and> (1 / 1000 \<le> dist_m \<longrightarrow>
            \<bar>of_int k / 100 - (dist_m / 1000 / velocidad_kmh) * 60\<bar>
              \<le> 1 / 200 + (dist_m / 1000 / velocidad_kmh) * 60 / 2 ^ 50)"
proof -
  obtain k where t: "py_round2 (minutos_de dist_m) = py_float (of_int k / 100)"
    and n: "\<bar>of_int k / 100 - minutos_de dist_m\<bar> \<le> 1 / 200"
    using py_round2_forma [of "minutos_de dist_m"] by blast
  have e: "(dist_m / 1000 / velocidad_kmh) * 60 = dist_m / 500"
    by (simp add: velocidad_kmh_def)
  have "\<bar>of_int k / 100 - dist_m / 500\<bar> \<le> 1 / 200 + dist_m / 500 / 2 ^ 50"
    if "1 / 1000 \<le> dist_m"
  proof -
    define B where "B = dist_m / 500 / 2 ^ 50"
    have "\<bar>minutos_de dist_m - dist_m / 500\<bar> \<le> B"
      using minutos_de_cerca [OF that] by (simp add: B_def)
    with n have "\<bar>of_int k / 100 - dist_m / 500\<bar> \<le> 1 / 200 + B"
      by linarith
    then show ?thesis by (simp only: B_def)
  qed
  then show ?thesis
    using t n unfolding e by (auto simp: metros_a_minutos_eq minutos_de_def)
qed

theorem metros_a_minutos_contract_witness:
  "\<exists>k. metros_a_minutos 1000 = Inr (py_float (of_int k / 100)) \<and> metros_a_minutos 1000 = Inr 2
     \<and> \<bar>of_int k / 100 - (1000 / 1000 / velocidad_kmh) * 60\<bar>
           \<le> 1 / 200 + (1000 / 1000 / velocidad_kmh) * 60 / 2 ^ 50"
proof -
  have r: "\<bar>1000 :: rat\<bar> \<le> max_double" by (simp add: max_double_def)
  have h: "(1 / 1000 :: rat) \<le> 1000" by simp
  have m: "metros_a_minutos 1000 = Inr 2" by code_simp
  from metros_a_minutos_contract [OF r] h m show ?thesis
    by auto
qed

text \<open>
  C4, as stated: doubling the length doubles the time. It fails at 3 metres: 3 m and 6 m
  both take 0.01 minutes after rounding.
\<close>

theorem linealidad_counterexample:
  "metros_a_minutos 3 = Inr (py_float (1 / 100)) \<and> metros_a_minutos (2 * 3) = Inr (py_float (1 / 100))
     \<and> metros_a_minutos (2 * 3) \<noteq> Inr (2 * py_float (1 / 100))"
  by code_simp

lemma tiempo_multiplo_de_5:
  assumes "1 \<le> j" and "j \<le> 400000000"
  shows "round_half_even (minutos_de (5 * of_int j) * 100) = j"
proof -
  define J :: rat where "J = of_int j"
  have J: "1 \<le> J" "J \<le> 400000000"
    using assms by (simp_all add: J_def)
  then have "1 / 1000 \<le> 5 * J" by simp
  define B where "B = J / 100 / 2 ^ 50"
  from minutos_de_cerca [OF \<open>1 / 1000 \<le> 5 * J\<close>] have "\<bar>minutos_de (5 * J) - J / 100\<bar> \<le> B"
    by (simp add: B_def)
  then have "\<bar>minutos_de (5 * J) * 100 - J\<bar> \<le> 100 * B"
    by linarith
  moreover have "100 * B < 1 / 2"
    using J by (simp add: B_def)
  ultimately have "\<bar>minutos_de (5 * J) * 100 - J\<bar> < 1 / 2"
    by linarith
  then show ?thesis
    unfolding J_def by (rule round_half_even_unico)
qed

text \<open>
  C4, amended: the time of length 0 is 0. For every length whose double is still a float
  the time of twice the length is twice the time up to one step of the rounding: the time of the length is the float
  of \<open>k\<close> hundredths of a minute, the time of twice the length the float of \<open>k2\<close>
  hundredths, and \<open>k2\<close> is \<open>2 * k - 1\<close>, \<open>2 * k\<close> or \<open>2 * k + 1\<close>. The two are equal whenever
  the length is a whole multiple of 5 metres, up to 1000000 km.
\<close>

theorem linealidad_hasta_redondeo:
  "metros_a_minutos 0 = Inr 0
     \<and> (\<bar>2 * len\<bar> \<le> max_double \<longrightarrow>
           (\<exists>k k2. metros_a_minutos len = Inr (py_float (of_int k / 100))
              \<and> metros_a_minutos (2 * len) = Inr (py_float (of_int k2 / 100))
              \<and> \<bar>k2 - 2 * k\<bar> \<le> 1))
     \<and> ((\<exists>j::int. 0 \<le> j \<and> len = 5 * of_int j \<and> len \<le> 1000000000) \<longrightarrow>
           (\<exists>t. metros_a_minutos len = Inr t \<and> metros_a_minutos (2 * len) = Inr (2 * t)))"
proof -
  have z: "metros_a_minutos 0 = Inr 0"
    by code_simp
  have x: "\<exists>k k2. metros_a_minutos len = Inr (py_float (of_int k / 100))
           \<and> metros_a_minutos (2 * len) = Inr (py_float (of_int k2 / 100))
           \<and> \<bar>k2 - 2 * k\<bar> \<le> 1"
    using tiempos_casi_dobles [of len]
    by (auto simp: metros_a_minutos_eq py_round2_def)
  have y: "\<exists>t. metros_a_minutos len = Inr t \<and> metros_a_minutos (2 * len) = Inr (2 * t)"
    if j: "0 \<le> j" and l: "len = 5 * of_int j" and b: "len \<le> 1000000000" for j :: int
  proof (cases "j = 0")
    case True
    with l z show ?thesis by simp
  next
    case False
    with j have j1: "1 \<le> j" by simp
    have "(of_int j :: rat) \<le> 200000000"
      using l b by simp
    then have j2: "j \<le> 200000000"
      by linarith
    have a: "round_half_even (minutos_de len * 100) = j"
      unfolding l using j1 j2 by (intro tiempo_multiplo_de_5) simp_all
    have "2 * len = 5 * of_int (2 * j)"
      by (simp add: l)
    moreover have "round_half_even (minutos_de (5 * of_int (2 * j)) * 100) = 2 * j"
      using j1 j2 by (intro tiempo_multiplo_de_5) simp_all
    ultimately have c: "round_half_even (minutos_de (2 * len) * 100) = 2 * j"
      by simp
    let ?x = "of_int j / 100 :: rat"
    have "(1 :: rat) \<le> of_int j"
      using j1 by simp
    then have p: "1 / 100 \<le> \<bar>?x\<bar>"
      by simp
    have "power_int (2::rat) (- 1022) \<le> power_int 2 (- 7)"
      by (intro dos_mono) simp
    also have "\<dots> \<le> 1 / 100"
      by (simp add: power_int_def power_divide)
    finally have "power_int 2 (- 1022) \<le> \<bar>?x\<bar>"
      using p by linarith
    then have "- 1022 \<le> exponente ?x"
      by (rule exponente_ge)
    moreover have "?x \<noteq> 0"
      using j1 by simp
    ultimately have "py_float (2 * ?x) = 2 * py_float ?x"
      by (intro py_float_doble)
    then have "py_float (of_int (2 * j) / 100) = 2 * py_float (of_int j / 100)"
      by simp
    then show ?thesis
      using a c by (simp add: metros_a_minutos_eq py_round2_def)
  qed
  from z x y show ?thesis by blast
qed

theorem linealidad_hasta_redondeo_witness:
  "metros_a_minutos 1000 = Inr 2 \<and> metros_a_minutos (2 * 1000) = Inr (2 * 2)
   \<and> (\<exists>k k2. metros_a_minutos 1000 = Inr (py_float (of_int k / 100))
          \<and> metros_a_minutos (2 * 1000) = Inr (py_float (of_int k2 / 100))
          \<and> \<bar>k2 - 2 * k\<bar> \<le> 1)"
proof -
  have r: "\<bar>2 * 1000 :: rat\<bar> \<le> max_double"
    by (simp add: max_double_def)
  have k: "\<exists>j::int. 0 \<le> j \<and> (1000::rat) = 5 * of_int j \<and> (1000::rat) \<le> 1000000000"
    by (rule exI [of _ 200]) simp
  have m: "metros_a_minutos 1000 = Inr 2"
    by code_simp
  from linealidad_hasta_redondeo [of 1000] r
  have x: "\<exists>k k2. metros_a_minutos 1000 = Inr (py_float (of_int k / 100))
          \<and> metros_a_minutos (2 * 1000) = Inr (py_float (of_int k2 / 100))
          \<and> \<bar>k2 - 2 * k\<bar> \<le> 1"
    by blast
  from linealidad_hasta_redondeo [of 1000] k m
  have y: "metros_a_minutos (2 * 1000) = Inr (2 * 2)"
    by auto
  from x y m show ?thesis
    by blast
qed

subsection \<open>The adjacency builder\<close>

lemma in_keys_iff: "k \<in> set (keys d) \<longleftrightarrow> map_of d k \<noteq> None"
  by (simp add: keys_def map_of_eq_None_iff)

lemma keys_update: "keys (AList.update k v d) = (if k \<in> set (keys d) then keys d else keys d @ [k])"
  by (simp add: keys_def update_keys)

lemma get_or_update: "get_or (AList.update k v d) k' dflt = (if k' = k then v else get_or d k' dflt)"
  by (simp add: get_or_def update_conv')

lemma agregar_ok:
  "k \<in> set (keys la) \<Longrightarrow> agregar la k e = Inr (AList.update k (get_or la k [] @ [e]) la)"
  by (auto simp: agregar_def getitem_def get_or_def in_keys_iff)

lemma agregar_KeyError: "k \<notin> set (keys la) \<Longrightarrow> agregar la k e = Inl KeyError"
  by (simp add: agregar_def getitem_def in_keys_iff)

lemma agregar_Inr:
  assumes "agregar la k e = Inr la'"
  shows "k \<in> set (keys la)" and "la' = AList.update k (get_or la k [] @ [e]) la"
  using assms agregar_ok [of k la e] agregar_KeyError [of k la e]
  by (cases "k \<in> set (keys la)"; simp)+

lemma doble_sentido_iff:
  "doble_sentido data \<longleftrightarrow>
     oneway_attr data \<in> {None, Some PNone, Some (PBool False), Some (PInt 0), Some (PFloat 0),
                          Some (PStr ''false''), Some (PStr ''False'')}"
proof (cases "oneway_attr data")
  case None
  then show ?thesis
    by (simp add: doble_sentido_def oneway_de_def py_in_def)
next
  case (Some w)
  then show ?thesis
    by (cases w) (auto simp: doble_sentido_def oneway_de_def py_in_def)
qed

lemma procesar_arista_eq:
  "procesar_arista la (u, v, data) =
     (case agregar la u (v, length_de data, py_round2 (minutos_de (length_de data))) of
        Inl e \<Rightarrow> Inl e
      | Inr la1 \<Rightarrow>
          if doble_sentido data
          then agregar la1 v (u, length_de data, py_round2 (minutos_de (length_de data)))
          else Inr la1)"
  by (simp add: procesar_arista_def Let_def metros_a_minutos_eq)

lemma procesar_arista_ok:
  assumes "u \<in> set (keys la)" and "doble_sentido data \<longrightarrow> v \<in> set (keys la)"
  shows "\<exists>la' t. procesar_arista la (u, v, data) = Inr la'
           \<and> metros_a_minutos (length_de data) = Inr t
           \<and> keys la' = keys la
           \<and> (\<forall>k. get_or la' k [] = get_or la k [] @ entradas u v data t k)"
proof -
  let ?t = "py_round2 (minutos_de (length_de data))"
  let ?la1 = "AList.update u (get_or la u [] @ [(v, length_de data, ?t)]) la"
  have m: "metros_a_minutos (length_de data) = Inr ?t"
    by (rule metros_a_minutos_eq)
  have a1: "agregar la u (v, length_de data, ?t) = Inr ?la1"
    using assms(1) by (rule agregar_ok)
  have k1: "keys ?la1 = keys la"
    using assms(1) by (simp add: keys_update)
  show ?thesis
  proof (cases "doble_sentido data")
    case False
    then have "procesar_arista la (u, v, data) = Inr ?la1"
      by (simp add: procesar_arista_eq a1)
    moreover have "\<forall>k. get_or ?la1 k [] = get_or la k [] @ entradas u v data ?t k"
      using False by (simp add: get_or_update entradas_def)
    ultimately show ?thesis
      using m k1 by blast
  next
    case True
    let ?la2 = "AList.update v (get_or ?la1 v [] @ [(u, length_de data, ?t)]) ?la1"
    have v1: "v \<in> set (keys ?la1)"
      using True assms(2) k1 by simp
    have "agregar ?la1 v (u, length_de data, ?t) = Inr ?la2"
      using v1 by (rule agregar_ok)
    then have "procesar_arista la (u, v, data) = Inr ?la2"
      using True by (simp add: procesar_arista_eq a1)
    moreover have "keys ?la2 = keys la"
      using v1 k1 by (simp add: keys_update)
    moreover have "\<forall>k. get_or ?la2 k [] = get_or la k [] @ entradas u v data ?t k"
      using True by (simp add: get_or_update entradas_def)
    ultimately show ?thesis
      using m by blast
  qed
qed

lemma procesar_arista_Inr:
  assumes "procesar_arista la (u, v, data) = Inr la'"
  shows "u \<in> set (keys la) \<and> (doble_sentido data \<longrightarrow> v \<in> set (keys la))"
proof -
  let ?t = "py_round2 (minutos_de (length_de data))"
  have m: "metros_a_minutos (length_de data) = Inr ?t"
    by (rule metros_a_minutos_eq)
  have u: "u \<in> set (keys la)"
    using assms agregar_KeyError [of u la "(v, length_de data, ?t)"]
    by (cases "u \<in> set (keys la)") (simp_all add: procesar_arista_eq)
  have "v \<in> set (keys la)" if d: "doble_sentido data"
  proof (rule ccontr)
    assume n: "v \<notin> set (keys la)"
    let ?la1 = "AList.update u (get_or la u [] @ [(v, length_de data, ?t)]) la"
    have "v \<notin> set (keys ?la1)"
      using n u by (simp add: keys_update)
    then have "agregar ?la1 v (u, length_de data, ?t) = Inl KeyError"
      by (rule agregar_KeyError)
    then show False
      using assms d agregar_ok [OF u, of "(v, length_de data, ?t)"]
      by (simp add: procesar_arista_eq)
  qed
  with u show ?thesis by blast
qed


lemma extraer_aristas_keys:
  "extraer_aristas ars la = Inr la' \<Longrightarrow> keys la' = keys la"
proof (induction ars arbitrary: la)
  case Nil
  then show ?case by simp
next
  case (Cons ar ars)
  obtain u v data where ar: "ar = (u, v, data)"
    by (cases ar) auto
  from Cons.prems obtain la1 where p: "procesar_arista la ar = Inr la1"
    and r: "extraer_aristas ars la1 = Inr la'"
    by (auto split: sum.splits)
  from p have "u \<in> set (keys la)" "doble_sentido data \<longrightarrow> v \<in> set (keys la)"
    using procesar_arista_Inr [of la u v data la1] by (simp_all add: ar)
  then have "keys la1 = keys la"
    using procesar_arista_ok [of u la data v] p by (auto simp: ar)
  with Cons.IH [OF r] show ?case by simp
qed

lemma extraer_aristas_mono:
  "extraer_aristas ars la = Inr la' \<Longrightarrow> set (get_or la k []) \<subseteq> set (get_or la' k [])"
proof (induction ars arbitrary: la)
  case Nil
  then show ?case by simp
next
  case (Cons ar ars)
  obtain u v data where ar: "ar = (u, v, data)"
    by (cases ar) auto
  from Cons.prems obtain la1 where p: "procesar_arista la ar = Inr la1"
    and r: "extraer_aristas ars la1 = Inr la'"
    by (auto split: sum.splits)
  from p have "u \<in> set (keys la)" "doble_sentido data \<longrightarrow> v \<in> set (keys la)"
    using procesar_arista_Inr [of la u v data la1] by (simp_all add: ar)
  then have "set (get_or la k []) \<subseteq> set (get_or la1 k [])"
    using procesar_arista_ok [of u la data v] p by (auto simp: ar)
  with Cons.IH [OF r] show ?case by blast
qed

lemma extraer_aristas_mem:
  assumes "extraer_aristas ars la = Inr la'" and "(u, v, data) \<in> set ars"
    and "metros_a_minutos (length_de data) = Inr t"
  shows "(v, length_de data, t) \<in> set (get_or la' u [])
         \<and> (doble_sentido data \<longrightarrow> (u, length_de data, t) \<in> set (get_or la' v []))"
  using assms(1,2)
proof (induction ars arbitrary: la)
  case Nil
  then show ?case by simp
next
  case (Cons ar ars)
  from Cons.prems(1) obtain la1 where p: "procesar_arista la ar = Inr la1"
    and r: "extraer_aristas ars la1 = Inr la'"
    by (auto split: sum.splits)
  show ?case
  proof (cases "ar = (u, v, data)")
    case True
    from p have "u \<in> set (keys la)" "doble_sentido data \<longrightarrow> v \<in> set (keys la)"
      using procesar_arista_Inr [of la u v data la1] by (simp_all add: True)
    then have "\<forall>k. get_or la1 k [] = get_or la k [] @ entradas u v data t k"
      using procesar_arista_ok [of u la data v] p assms(3) by (auto simp: True)
    then have "(v, length_de data, t) \<in> set (get_or la1 u [])"
      and "doble_sentido data \<longrightarrow> (u, length_de data, t) \<in> set (get_or la1 v [])"
      by (simp_all add: entradas_def)
    then show ?thesis
      using extraer_aristas_mono [OF r, of u] extraer_aristas_mono [OF r, of v] by blast
  next
    case False
    with Cons.prems(2) have "(u, v, data) \<in> set ars" by simp
    from Cons.IH [OF r this] show ?thesis .
  qed
qed

lemma extraer_aristas_ok:
  assumes "\<forall>ar \<in> set ars. fst ar \<in> set (keys la) \<and> fst (snd ar) \<in> set (keys la)"
  shows "\<exists>la'. extraer_aristas ars la = Inr la'"
  using assms
proof (induction ars arbitrary: la)
  case Nil
  then show ?case by simp
next
  case (Cons ar ars)
  obtain u v data where ar: "ar = (u, v, data)"
    by (cases ar) auto
  from Cons.prems have "u \<in> set (keys la)" "v \<in> set (keys la)"
    by (simp_all add: ar)
  then obtain la1 where p: "procesar_arista la ar = Inr la1" and k: "keys la1 = keys la"
    using procesar_arista_ok [of u la data v] by (auto simp: ar)
  from Cons.prems k have "\<forall>ar \<in> set ars. fst ar \<in> set (keys la1) \<and> fst (snd ar) \<in> set (keys la1)"
    by simp
  from Cons.IH [OF this] p show ?case by simp
qed

lemma paso_nodo_eq:
  "paso_nodo (nodo, data) (ni, la) = (AList.update nodo (coordenadas data) ni, AList.update nodo [] la)"
  by (simp add: paso_nodo_def coordenadas_def)

lemma extraer_nodos_info:
  "map_of (fst (extraer_nodos nds st)) =
     map_of (fst st) ++ map_of (rev (map (\<lambda>nd. (fst nd, coordenadas (snd nd))) nds))"
proof (induction nds arbitrary: st)
  case Nil
  then show ?case by simp
next
  case (Cons nd nds)
  obtain nodo data where nd: "nd = (nodo, data)" by (cases nd) auto
  obtain ni la where st: "st = (ni, la)" by (cases st) auto
  show ?case
    by (rule ext) (simp add: Cons.IH nd st paso_nodo_eq update_conv' map_add_def split: option.splits)
qed

lemma extraer_nodos_ady:
  "map_of (snd (extraer_nodos nds st)) n =
     (if n \<in> fst ` set nds then Some [] else map_of (snd st) n)"
proof (induction nds arbitrary: st)
  case Nil
  then show ?case by simp
next
  case (Cons nd nds)
  obtain nodo data where nd: "nd = (nodo, data)" by (cases nd) auto
  obtain ni la where st: "st = (ni, la)" by (cases st) auto
  show ?case
    by (auto simp: Cons.IH nd st paso_nodo_eq update_conv')
qed

lemma extraer_nodos_keys:
  "set (keys (fst (extraer_nodos nds st))) = set (keys (fst st)) \<union> fst ` set nds
   \<and> set (keys (snd (extraer_nodos nds st))) = set (keys (snd st)) \<union> fst ` set nds"
proof (induction nds arbitrary: st)
  case Nil
  then show ?case by simp
next
  case (Cons nd nds)
  obtain nodo data where nd: "nd = (nodo, data)" by (cases nd) auto
  obtain ni la where st: "st = (ni, la)" by (cases st) auto
  have "set (keys (fst (paso_nodo nd st))) = insert nodo (set (keys (fst st)))"
    and "set (keys (snd (paso_nodo nd st))) = insert nodo (set (keys (snd st)))"
    by (auto simp: nd st paso_nodo_eq keys_update)
  then show ?case
    using Cons.IH [of "paso_nodo nd st"] by (auto simp: nd)
qed

lemma extraer_nodos_distinct:
  "distinct (keys (fst st)) \<Longrightarrow> distinct (keys (snd st)) \<Longrightarrow>
     distinct (keys (fst (extraer_nodos nds st))) \<and> distinct (keys (snd (extraer_nodos nds st)))"
proof (induction nds arbitrary: st)
  case Nil
  then show ?case by simp
next
  case (Cons nd nds)
  obtain nodo data where nd: "nd = (nodo, data)" by (cases nd) auto
  obtain ni la where st: "st = (ni, la)" by (cases st) auto
  have "distinct (keys (fst (paso_nodo nd st)))" "distinct (keys (snd (paso_nodo nd st)))"
    using Cons.prems by (simp_all add: nd st paso_nodo_eq keys_update)
  from Cons.IH [OF this] show ?case by simp
qed


lemma m100: "metros_a_minutos 100 = Inr (py_float (1 / 5))"
  by code_simp

text \<open>
  C10. One turn of the node loop stores for the node the pair (x, y), with 0 in place of a
  missing coordinate, and an empty list of neighbours, and never raises. After the loop
  every node of the raw node iterable has an entry in \<open>nodos_info\<close> and an empty list in
  \<open>lista_ady\<close>; the keys of both are exactly the nodes seen (when the identifiers are
  distinct, as in a graph, each node keeps its own coordinates).
\<close>

theorem nodos_registrados:
  "map_of (fst (paso_nodo (nodo, data) st)) nodo =
      Some ((case x_attr data of None \<Rightarrow> 0 | Some x \<Rightarrow> x), (case y_attr data of None \<Rightarrow> 0 | Some y \<Rightarrow> y))
   \<and> map_of (snd (paso_nodo (nodo, data) st)) nodo = Some []
   \<and> (\<forall>nd \<in> set nodos.
         fst nd \<in> set (keys (fst (extraer_nodos nodos ([], []))))
         \<and> map_of (snd (extraer_nodos nodos ([], []))) (fst nd) = Some []
         \<and> (distinct (map fst nodos) \<longrightarrow>
              map_of (fst (extraer_nodos nodos ([], []))) (fst nd) = Some (coordenadas (snd nd))))
   \<and> set (keys (fst (extraer_nodos nodos ([], [])))) = fst ` set nodos
   \<and> set (keys (snd (extraer_nodos nodos ([], [])))) = fst ` set nodos"
proof -
  obtain ni la where st: "st = (ni, la)" by (cases st) auto
  have a: "map_of (fst (paso_nodo (nodo, data) st)) nodo =
      Some ((case x_attr data of None \<Rightarrow> 0 | Some x \<Rightarrow> x), (case y_attr data of None \<Rightarrow> 0 | Some y \<Rightarrow> y))"
    by (simp add: st paso_nodo_eq update_conv' coordenadas_def)
  have b: "map_of (snd (paso_nodo (nodo, data) st)) nodo = Some []"
    by (simp add: st paso_nodo_eq update_conv')
  have k: "set (keys (fst (extraer_nodos nodos ([], [])))) = fst ` set nodos"
    "set (keys (snd (extraer_nodos nodos ([], [])))) = fst ` set nodos"
    using extraer_nodos_keys [of nodos "([], [])"] by (simp_all add: keys_def)
  have c: "map_of (snd (extraer_nodos nodos ([], []))) (fst nd) = Some []" if "nd \<in> set nodos" for nd
    using that by (simp add: extraer_nodos_ady)
  have d: "map_of (fst (extraer_nodos nodos ([], []))) (fst nd) = Some (coordenadas (snd nd))"
    if "nd \<in> set nodos" and dis: "distinct (map fst nodos)" for nd
  proof -
    let ?xs = "rev (map (\<lambda>nd. (fst nd, coordenadas (snd nd))) nodos)"
    have "map fst ?xs = rev (map fst nodos)"
      by (simp add: rev_map comp_def)
    then have "distinct (map fst ?xs)"
      using dis by simp
    moreover have "(fst nd, coordenadas (snd nd)) \<in> set ?xs"
      using that(1) by auto
    ultimately have "map_of ?xs (fst nd) = Some (coordenadas (snd nd))"
      by (rule map_of_is_SomeI)
    then show ?thesis
      by (simp add: extraer_nodos_info)
  qed
  show ?thesis
    using a b c d k by blast
qed

theorem nodos_registrados_witness:
  "map_of (fst (extraer_nodos
      [(1::nat, \<lparr>x_attr = None, y_attr = Some 5\<rparr>), (2, \<lparr>x_attr = Some 3, y_attr = None\<rparr>)]
      ([], []))) 2 = Some (3, 0)
   \<and> map_of (snd (extraer_nodos
      [(1::nat, \<lparr>x_attr = None, y_attr = Some 5\<rparr>), (2, \<lparr>x_attr = Some 3, y_attr = None\<rparr>)]
      ([], []))) 2 = Some []"
proof -
  let ?nodos = "[(1::nat, \<lparr>x_attr = None, y_attr = Some 5\<rparr>), (2, \<lparr>x_attr = Some 3, y_attr = None\<rparr>)]"
  have m: "(2, \<lparr>x_attr = Some 3, y_attr = None\<rparr>) \<in> set ?nodos"
    by simp
  have dis: "distinct (map fst ?nodos)"
    by simp
  have "\<forall>nd \<in> set ?nodos.
         fst nd \<in> set (keys (fst (extraer_nodos ?nodos ([], []))))
         \<and> map_of (snd (extraer_nodos ?nodos ([], []))) (fst nd) = Some []
         \<and> (distinct (map fst ?nodos) \<longrightarrow>
              map_of (fst (extraer_nodos ?nodos ([], []))) (fst nd) = Some (coordenadas (snd nd)))"
    using nodos_registrados [of 1 "\<lparr>x_attr = None, y_attr = Some 5\<rparr>" "([], [])" ?nodos] by blast
  from bspec [OF this m] dis show ?thesis
    by (simp add: coordenadas_def)
qed

text \<open>
  C9. An edge without a length is processed with the length 100 and the time of 100
  metres, the float 0.2: these are the values of the tuples it appends, and the edge is
  processed without raising when its endpoints have adjacency lists.
\<close>

theorem longitud_por_defecto:
  assumes "length_attr data = None" and "u \<in> set (keys la)"
    and "doble_sentido data \<longrightarrow> v \<in> set (keys la)"
  shows "length_de data = 100 \<and> metros_a_minutos (length_de data) = Inr (py_float (1 / 5))
     \<and> (\<exists>la'. procesar_arista la (u, v, data) = Inr la'
           \<and> (\<forall>k. get_or la' k [] =
                  get_or la k [] @ (if k = u then [(v, 100, py_float (1 / 5))] else [])
                    @ (if doble_sentido data \<and> k = v then [(u, 100, py_float (1 / 5))] else [])))"
proof -
  have l: "length_de data = 100"
    using assms(1) by (simp add: length_de_def)
  from procesar_arista_ok [OF assms(2,3)] show ?thesis
    by (auto simp: l m100 entradas_def)
qed

theorem longitud_por_defecto_witness:
  "\<exists>la'. procesar_arista [(1::nat, []), (2, [])] (1, 2, \<lparr>length_attr = None, oneway_attr = Some (PBool True)\<rparr>)
      = Inr la' \<and> get_or la' 1 [] = [(2, 100, py_float (1 / 5))] \<and> get_or la' 2 [] = []"
proof -
  let ?d = "\<lparr>length_attr = None, oneway_attr = Some (PBool True)\<rparr>"
  let ?la = "[(1::nat, []), (2, [])] :: nat ady"
  have a: "length_attr ?d = None" by simp
  have b: "(1::nat) \<in> set (keys ?la)" by (simp add: keys_def)
  have c: "\<not> doble_sentido ?d" by (simp add: doble_sentido_iff)
  then have c': "doble_sentido ?d \<longrightarrow> (2::nat) \<in> set (keys ?la)" by simp
  from longitud_por_defecto [OF a b c'] c show ?thesis
    by (auto simp: get_or_def)
qed

text \<open>
  C1, as stated: the reverse tuple is appended if and only if the one-way attribute is
  absent, false or any falsy representation. The empty string is falsy in Python, and an
  edge carrying it gets no reverse tuple.
\<close>

theorem reverso_counterexample:
  "\<not> py_truthy (PStr [])
   \<and> procesar_arista [(1::nat, []), (2, [])] (1, 2, \<lparr>length_attr = Some 50, oneway_attr = Some (PStr [])\<rparr>)
       = Inr [(1, [(2, 50, py_float (1 / 10))]), (2, [])]"
  by code_simp

text \<open>
  C1, amended: for every edge whose origin (and, when it is two-way, destination) has an
  adjacency list, the forward tuple (destination, length, time) is appended to the
  origin's list, and the reverse tuple (origin, length, time) is appended to the
  destination's list if and only if the one-way attribute is absent or equal, by Python's
  \<open>==\<close>, to one of False, 'false', 'False', 0, None. When every endpoint is a declared
  node the builder returns, and for every edge so marked two-way both directions are in
  the adjacency it returns, with the same length and time.
\<close>

theorem arista_en_ambos_sentidos:
  "(u \<in> set (keys la) \<and> (doble_sentido data \<longrightarrow> v \<in> set (keys la)) \<longrightarrow>
      (\<exists>la' t. procesar_arista la (u, v, data) = Inr la'
         \<and> metros_a_minutos (length_de data) = Inr t
         \<and> (\<forall>k. get_or la' k [] =
                get_or la k [] @ (if k = u then [(v, length_de data, t)] else [])
                  @ (if doble_sentido data \<and> k = v then [(u, length_de data, t)] else []))))
   \<and> (doble_sentido data \<longleftrightarrow>
        oneway_attr data \<in> {None, Some PNone, Some (PBool False), Some (PInt 0), Some (PFloat 0),
                             Some (PStr ''false''), Some (PStr ''False'')})
   \<and> ((\<forall>ar \<in> set aristas. fst ar \<in> fst ` set nodos \<and> fst (snd ar) \<in> fst ` set nodos) \<longrightarrow>
        (\<exists>ni lista. construir nodos aristas = Inr (ni, lista)))
   \<and> (construir nodos aristas = Inr (ni, lista) \<and> (u, v, data) \<in> set aristas \<and> doble_sentido data \<longrightarrow>
        (\<exists>t. metros_a_minutos (length_de data) = Inr t
           \<and> (v, length_de data, t) \<in> set (get_or lista u [])
           \<and> (u, length_de data, t) \<in> set (get_or lista v [])))"
proof -
  have a: "\<exists>la' t. procesar_arista la (u, v, data) = Inr la'
         \<and> metros_a_minutos (length_de data) = Inr t
         \<and> (\<forall>k. get_or la' k [] =
                get_or la k [] @ (if k = u then [(v, length_de data, t)] else [])
                  @ (if doble_sentido data \<and> k = v then [(u, length_de data, t)] else []))"
    if "u \<in> set (keys la)" and "doble_sentido data \<longrightarrow> v \<in> set (keys la)"
    using procesar_arista_ok [OF that] unfolding entradas_def by blast
  have c: "\<exists>ni lista. construir nodos aristas = Inr (ni, lista)"
    if w: "\<forall>ar \<in> set aristas. fst ar \<in> fst ` set nodos \<and> fst (snd ar) \<in> fst ` set nodos"
  proof -
    have "set (keys (snd (extraer_nodos nodos ([], [])))) = fst ` set nodos"
      using extraer_nodos_keys [of nodos "([], [])"] by (simp add: keys_def)
    with w have "\<forall>ar \<in> set aristas. fst ar \<in> set (keys (snd (extraer_nodos nodos ([], []))))
        \<and> fst (snd ar) \<in> set (keys (snd (extraer_nodos nodos ([], []))))"
      by simp
    from extraer_aristas_ok [OF this] show ?thesis
      by (auto simp: construir_def)
  qed
  have d: "\<exists>t. metros_a_minutos (length_de data) = Inr t
           \<and> (v, length_de data, t) \<in> set (get_or lista u [])
           \<and> (u, length_de data, t) \<in> set (get_or lista v [])"
    if "construir nodos aristas = Inr (ni, lista)" and m: "(u, v, data) \<in> set aristas"
      and ds: "doble_sentido data"
  proof -
    from that(1) have e: "extraer_aristas aristas (snd (extraer_nodos nodos ([], []))) = Inr lista"
      by (auto simp: construir_def Let_def split: sum.splits)
    from extraer_aristas_mem [OF e m metros_a_minutos_eq] ds show ?thesis
      by (auto simp: metros_a_minutos_eq)
  qed
  show ?thesis
    using a c d doble_sentido_iff [of data] by blast
qed

theorem arista_en_ambos_sentidos_witness:
  "(\<exists>la'. procesar_arista [(1::nat, []), (2, []), (3, [])]
        (1, 2, \<lparr>length_attr = Some 1000, oneway_attr = Some (PBool False)\<rparr>) = Inr la'
      \<and> get_or la' 1 [] = [(2, 1000, 2)] \<and> get_or la' 2 [] = [(1, 1000, 2)])
   \<and> (\<exists>ni lista. construir
         [(1::nat, \<lparr>x_attr = Some 1, y_attr = Some 1\<rparr>), (2, \<lparr>x_attr = Some 2, y_attr = Some 2\<rparr>),
          (3, \<lparr>x_attr = Some 3, y_attr = Some 3\<rparr>)]
         [(1, 2, \<lparr>length_attr = Some 1000, oneway_attr = Some (PBool False)\<rparr>),
          (2, 3, \<lparr>length_attr = Some 2000, oneway_attr = Some (PBool True)\<rparr>)] = Inr (ni, lista)
       \<and> (2, 1000, 2) \<in> set (get_or lista 1 []) \<and> (1, 1000, 2) \<in> set (get_or lista 2 []))"
proof -
  let ?d = "\<lparr>length_attr = Some 1000, oneway_attr = Some (PBool False)\<rparr>"
  let ?e = "\<lparr>length_attr = Some 2000, oneway_attr = Some (PBool True)\<rparr>"
  let ?la = "[(1::nat, []), (2, []), (3, [])] :: nat ady"
  let ?nodos = "[(1::nat, \<lparr>x_attr = Some 1, y_attr = Some 1\<rparr>), (2, \<lparr>x_attr = Some 2, y_attr = Some 2\<rparr>),
                 (3, \<lparr>x_attr = Some 3, y_attr = Some 3\<rparr>)]"
  let ?aristas = "[(1::nat, 2::nat, ?d), (2, 3, ?e)]"
  let ?ni = "[(1::nat, (1::rat, 1::rat)), (2, (2, 2)), (3, (3, 3))]"
  let ?lista = "[(1::nat, [(2::nat, 1000::rat, 2::rat)]), (2, [(1, 1000, 2), (3, 2000, 4)]), (3, [])]"
  have ds: "doble_sentido ?d" by (simp add: doble_sentido_iff)
  have l: "length_de ?d = 1000" by (simp add: length_de_def)
  have m: "metros_a_minutos 1000 = Inr 2" by code_simp
  have k: "(1::nat) \<in> set (keys ?la) \<and> (doble_sentido ?d \<longrightarrow> (2::nat) \<in> set (keys ?la))"
    by (simp add: keys_def)
  have w: "\<forall>ar \<in> set ?aristas. fst ar \<in> fst ` set ?nodos \<and> fst (snd ar) \<in> fst ` set ?nodos"
    by simp
  have c: "construir ?nodos ?aristas = Inr (?ni, ?lista)" by code_simp
  have i: "(1, 2, ?d) \<in> set ?aristas" by simp
  note t = arista_en_ambos_sentidos [of 1 ?la ?d 2 ?aristas ?nodos ?ni ?lista]
  from t k have "\<exists>la' t. procesar_arista ?la (1, 2, ?d) = Inr la'
         \<and> metros_a_minutos (length_de ?d) = Inr t
         \<and> (\<forall>k. get_or la' k [] =
                get_or ?la k [] @ (if k = 1 then [(2, length_de ?d, t)] else [])
                  @ (if doble_sentido ?d \<and> k = 2 then [(1, length_de ?d, t)] else []))"
    by blast
  then have p1: "\<exists>la'. procesar_arista ?la (1, 2, ?d) = Inr la'
      \<and> get_or la' 1 [] = [(2, 1000, 2)] \<and> get_or la' 2 [] = [(1, 1000, 2)]"
    using ds by (auto simp: l m get_or_def)
  from t c i ds have "\<exists>t. metros_a_minutos (length_de ?d) = Inr t
           \<and> (2, length_de ?d, t) \<in> set (get_or ?lista 1 [])
           \<and> (1, length_de ?d, t) \<in> set (get_or ?lista 2 [])"
    by blast
  then have p2: "(2, 1000, 2) \<in> set (get_or ?lista 1 []) \<and> (1, 1000, 2) \<in> set (get_or ?lista 2 [])"
    by (auto simp: l m)
  from p1 p2 c show ?thesis by blast
qed

subsection \<open>Breadth-first search\<close>

lemma encolar_vecinos_visitados:
  "snd (encolar_vecinos vs st) = snd st \<union> fst ` set vs"
  by (induction vs arbitrary: st) (auto simp: Let_def)

lemma encolar_vecinos_cola:
  "fst ` set vs \<subseteq> snd st \<Longrightarrow> fst (encolar_vecinos vs st) = fst st"
  by (induction vs arbitrary: st) (auto simp: Let_def)

lemma get_or_vecinos: "fst ` set (get_or grafo_adj nodo []) \<subseteq> vecinos_de grafo_adj"
proof (cases "map_of grafo_adj nodo")
  case None
  then show ?thesis by (simp add: get_or_def)
next
  case (Some vs)
  then have "(nodo, vs) \<in> set grafo_adj"
    by (rule map_of_SomeD)
  then have "vs \<in> snd ` set grafo_adj"
    by force
  then show ?thesis
    using Some by (auto simp: get_or_def vecinos_de_def)
qed

lemma bfs_bucle_mono: "visitados \<subseteq> bfs_bucle g cola visitados"
proof (induction g cola visitados rule: bfs_bucle.induct)
  case (1 g visitados)
  then show ?case by simp
next
  case (2 g nodo cola visitados)
  have "visitados \<subseteq> snd (encolar_vecinos (get_or g nodo []) (cola, visitados))"
    by (simp add: encolar_vecinos_visitados)
  with 2 show ?case by auto
qed

lemma bfs_bucle_cerrado:
  "vecinos_de g \<subseteq> K \<Longrightarrow> visitados \<subseteq> K \<Longrightarrow> bfs_bucle g cola visitados \<subseteq> K"
proof (induction g cola visitados rule: bfs_bucle.induct)
  case (1 g visitados)
  then show ?case by simp
next
  case (2 g nodo cola visitados)
  have "snd (encolar_vecinos (get_or g nodo []) (cola, visitados)) \<subseteq> K"
    using 2(2,3) get_or_vecinos [of g nodo] by (auto simp: encolar_vecinos_visitados)
  with 2 show ?case by simp
qed

lemma bfs_bucle_finite: "finite visitados \<Longrightarrow> finite (bfs_bucle g cola visitados)"
proof (induction g cola visitados rule: bfs_bucle.induct)
  case (1 g visitados)
  then show ?case by simp
next
  case (2 g nodo cola visitados)
  have "finite (snd (encolar_vecinos (get_or g nodo []) (cola, visitados)))"
    using 2(2) by (simp add: encolar_vecinos_visitados)
  with 2 show ?case by simp
qed

lemma BFS_componente_inicio: "inicio \<in> BFS_componente g inicio"
  using bfs_bucle_mono [of "{inicio}" g "[inicio]"] by (simp add: BFS_componente_def)

lemma BFS_componente_cerrado:
  "vecinos_de g \<subseteq> K \<Longrightarrow> inicio \<in> K \<Longrightarrow> BFS_componente g inicio \<subseteq> K"
  unfolding BFS_componente_def by (rule bfs_bucle_cerrado) simp_all

lemma BFS_componente_finite: "finite (BFS_componente g inicio)"
  unfolding BFS_componente_def by (rule bfs_bucle_finite) simp

subsection \<open>The components\<close>

lemma descubrir_union:
  "snd st = \<Union> (set (fst st)) \<Longrightarrow>
     snd (descubrir g ns st) = \<Union> (set (fst (descubrir g ns st)))"
proof (induction ns arbitrary: st)
  case Nil
  then show ?case by simp
next
  case (Cons n ns)
  show ?case
  proof (cases "n \<in> snd st")
    case True
    with Cons.IH [OF Cons.prems] show ?thesis by simp
  next
    case False
    let ?st = "(fst st @ [BFS_componente g n], snd st \<union> BFS_componente g n)"
    have "snd ?st = \<Union> (set (fst ?st))"
      using Cons.prems by auto
    from Cons.IH [OF this] False show ?thesis
      by (simp add: Let_def)
  qed
qed

lemma descubrir_visitados_mono: "snd st \<subseteq> snd (descubrir g ns st)"
proof (induction ns arbitrary: st)
  case Nil
  then show ?case by simp
next
  case (Cons n ns)
  show ?case
  proof (cases "n \<in> snd st")
    case True
    with Cons.IH [of st] show ?thesis by simp
  next
    case False
    with Cons.IH [of "(fst st @ [BFS_componente g n], snd st \<union> BFS_componente g n)"]
    show ?thesis by (auto simp: Let_def)
  qed
qed

lemma descubrir_cubre: "set ns \<subseteq> snd (descubrir g ns st)"
proof (induction ns arbitrary: st)
  case Nil
  then show ?case by simp
next
  case (Cons n ns)
  show ?case
  proof (cases "n \<in> snd st")
    case True
    with Cons.IH [of st] descubrir_visitados_mono [of st g ns] show ?thesis by auto
  next
    case False
    let ?st = "(fst st @ [BFS_componente g n], snd st \<union> BFS_componente g n)"
    have "n \<in> snd ?st"
      by (simp add: BFS_componente_inicio)
    with Cons.IH [of ?st] descubrir_visitados_mono [of ?st g ns] False
    show ?thesis by (auto simp: Let_def)
  qed
qed

lemma descubrir_dentro:
  "vecinos_de g \<subseteq> K \<Longrightarrow> set ns \<subseteq> K \<Longrightarrow> \<forall>c \<in> set (fst st). c \<subseteq> K \<Longrightarrow>
     \<forall>c \<in> set (fst (descubrir g ns st)). c \<subseteq> K"
proof (induction ns arbitrary: st)
  case Nil
  then show ?case by simp
next
  case (Cons n ns)
  show ?case
  proof (cases "n \<in> snd st")
    case True
    with Cons.IH [of st] Cons.prems show ?thesis by simp
  next
    case False
    let ?st = "(fst st @ [BFS_componente g n], snd st \<union> BFS_componente g n)"
    have "BFS_componente g n \<subseteq> K"
      using Cons.prems(1,2) by (simp add: BFS_componente_cerrado)
    then have "\<forall>c \<in> set (fst ?st). c \<subseteq> K"
      using Cons.prems(3) by auto
    with Cons.IH [of ?st] Cons.prems(1,2) False show ?thesis
      by (simp add: Let_def)
  qed
qed

lemma descubrir_finite:
  "\<forall>c \<in> set (fst st). finite c \<Longrightarrow> \<forall>c \<in> set (fst (descubrir g ns st)). finite c"
proof (induction ns arbitrary: st)
  case Nil
  then show ?case by simp
next
  case (Cons n ns)
  show ?case
  proof (cases "n \<in> snd st")
    case True
    with Cons.IH [of st] Cons.prems show ?thesis by simp
  next
    case False
    let ?st = "(fst st @ [BFS_componente g n], snd st \<union> BFS_componente g n)"
    have "\<forall>c \<in> set (fst ?st). finite c"
      using Cons.prems by (auto simp: BFS_componente_finite)
    with Cons.IH [of ?st] False show ?thesis
      by (simp add: Let_def)
  qed
qed

lemma componentes_de_finite: "\<forall>c \<in> set (componentes_de iter g). finite c"
  using descubrir_finite [of "([], {})" g] by (simp add: componentes_de_def)

lemma componentes_de_cubre:
  assumes "set (iter (set (keys g))) = set (keys g)"
  shows "set (keys g) \<subseteq> \<Union> (set (componentes_de iter g))"
proof -
  let ?r = "descubrir g (iter (set (keys g))) ([], {})"
  have "snd ?r = \<Union> (set (fst ?r))"
    by (rule descubrir_union) simp
  moreover have "set (iter (set (keys g))) \<subseteq> snd ?r"
    by (rule descubrir_cubre)
  ultimately show ?thesis
    using assms by (simp add: componentes_de_def)
qed

lemma componentes_de_dentro:
  assumes "set (iter (set (keys g))) = set (keys g)" and "vecinos_de g \<subseteq> set (keys g)"
  shows "\<forall>c \<in> set (componentes_de iter g). c \<subseteq> set (keys g)"
  using descubrir_dentro [of g "set (keys g)" "iter (set (keys g))" "([], {})"] assms
  by (simp add: componentes_de_def)

subsection \<open>The main component\<close>

lemma tupla_lt_card:
  assumes "finite a" and "finite b"
  shows "tupla_lt (card a, a) (card b, b) \<longleftrightarrow> card a < card b"
proof (cases "card a = card b")
  case True
  have "\<not> a \<subset> b"
  proof
    assume "a \<subset> b"
    then have "card a < card b"
      using assms(2) by (rule psubset_card_mono [rotated])
    with True show False by simp
  qed
  with True show ?thesis by (simp add: tupla_lt_def)
next
  case False
  then show ?thesis by (simp add: tupla_lt_def)
qed

lemma py_sort_rev: "py_sort (rev xs) = foldr insertar xs []"
  by (simp add: py_sort_def foldr_conv_foldl)

lemma set_insertar: "set (insertar x ys) = insert x (set ys)"
  by (induction ys) auto

lemma length_insertar: "length (insertar x ys) = Suc (length ys)"
  by (induction ys) auto

lemma insertar_not_Nil: "insertar x ys \<noteq> []"
  by (cases ys) auto

lemma last_insertar:
  "last (insertar x ys) = (if \<exists>y \<in> set ys. tupla_lt x y then last ys else x)"
proof (induction ys)
  case Nil
  then show ?case by simp
next
  case (Cons y ys)
  show ?case
  proof (cases "tupla_lt x y")
    case True
    then show ?thesis by simp
  next
    case False
    then have "last (insertar x (y # ys)) = last (insertar x ys)"
      by (simp add: insertar_not_Nil)
    also have "\<dots> = (if \<exists>z \<in> set ys. tupla_lt x z then last ys else x)"
      by (rule Cons.IH)
    finally show ?thesis
      using False by auto
  qed
qed

lemma set_foldr_insertar: "set (foldr insertar xs []) = set xs"
  by (induction xs) (auto simp: set_insertar)

lemma length_foldr_insertar: "length (foldr insertar xs []) = length xs"
  by (induction xs) (auto simp: length_insertar)

lemma length_ordenar_componentes: "length (ordenar_componentes cs) = length cs"
  by (simp add: ordenar_componentes_def py_sort_reverse_def py_sort_rev length_foldr_insertar)

lemma set_ordenar_componentes: "set (ordenar_componentes cs) = set cs"
proof -
  have "set (ordenar_componentes cs) = snd ` set (map (\<lambda>comp. (card comp, comp)) cs)"
    by (simp add: ordenar_componentes_def py_sort_reverse_def py_sort_rev set_foldr_insertar)
  also have "\<dots> = set cs"
    by force
  finally show ?thesis .
qed

lemma componente_principal_last:
  "cs \<noteq> [] \<Longrightarrow> componente_principal (ordenar_componentes cs)
     = snd (last (foldr insertar (map (\<lambda>comp. (card comp, comp)) cs) []))"
proof -
  assume ne: "cs \<noteq> []"
  let ?s = "foldr insertar (map (\<lambda>comp. (card comp, comp)) cs) []"
  have n: "?s \<noteq> []"
    using ne length_foldr_insertar [of "map (\<lambda>comp. (card comp, comp)) cs"] by auto
  have "ordenar_componentes cs = map snd (rev ?s)"
    by (simp add: ordenar_componentes_def py_sort_reverse_def py_sort_rev)
  moreover have "rev ?s = last ?s # rev (butlast ?s)"
  proof -
    have "rev ?s = rev (butlast ?s @ [last ?s])"
      using n by simp
    then show ?thesis by simp
  qed
  ultimately show ?thesis
    by (simp add: componente_principal_def)
qed

lemma primero_maximo:
  assumes "cs \<noteq> []" and "\<forall>c \<in> set cs. finite c"
  shows "\<exists>i < length cs.
      last (foldr insertar (map (\<lambda>comp. (card comp, comp)) cs) []) = (card (cs ! i), cs ! i)
      \<and> (\<forall>j < length cs. card (cs ! j) \<le> card (cs ! i))
      \<and> (\<forall>j < i. card (cs ! j) < card (cs ! i))"
  using assms
proof (induction cs)
  case Nil
  then show ?case by simp
next
  case (Cons c rest)
  let ?f = "\<lambda>comp. (card comp, comp)"
  let ?R = "foldr insertar (map ?f rest) []"
  have fc: "finite c" and fr: "\<forall>d \<in> set rest. finite d"
    using Cons.prems(2) by simp_all
  have lt: "(\<exists>y \<in> set ?R. tupla_lt (?f c) y) \<longleftrightarrow> (\<exists>d \<in> set rest. card c < card d)"
    using fc fr by (auto simp: set_foldr_insertar tupla_lt_card)
  have l: "last (foldr insertar (map ?f (c # rest)) []) =
      (if \<exists>d \<in> set rest. card c < card d then last ?R else ?f c)"
    by (simp add: last_insertar lt del: set_map)
  show ?case
  proof (cases "\<exists>d \<in> set rest. card c < card d")
    case True
    then have ne: "rest \<noteq> []" by auto
    from Cons.IH [OF ne fr] obtain i where i: "i < length rest"
      and li: "last ?R = (card (rest ! i), rest ! i)"
      and mx: "\<forall>j < length rest. card (rest ! j) \<le> card (rest ! i)"
      and fs: "\<forall>j < i. card (rest ! j) < card (rest ! i)"
      by blast
    from True obtain d where d: "d \<in> set rest" "card c < card d" by blast
    then obtain k where "k < length rest" "rest ! k = d"
      by (auto simp: in_set_conv_nth)
    with mx d have cl: "card c < card (rest ! i)"
      by force
    have "Suc i < length (c # rest)"
      using i by simp
    moreover have "last (foldr insertar (map ?f (c # rest)) []) = ?f ((c # rest) ! Suc i)"
      using True l li by simp
    moreover have "\<forall>j < length (c # rest). card ((c # rest) ! j) \<le> card ((c # rest) ! Suc i)"
      using mx cl by (auto simp: nth_Cons split: nat.splits)
    moreover have "\<forall>j < Suc i. card ((c # rest) ! j) < card ((c # rest) ! Suc i)"
      using fs cl by (auto simp: nth_Cons split: nat.splits)
    ultimately show ?thesis by blast
  next
    case False
    then have le: "\<forall>d \<in> set rest. card d \<le> card c"
      by (auto simp: not_less)
    have "last (foldr insertar (map ?f (c # rest)) []) = ?f ((c # rest) ! 0)"
      using False l by simp
    moreover have "\<forall>j < length (c # rest). card ((c # rest) ! j) \<le> card ((c # rest) ! 0)"
      using le by (auto simp: nth_Cons split: nat.splits)
    ultimately show ?thesis by auto
  qed
qed

text \<open>
  C3. For a non-empty list of components (finite sets, as every Python set is), the
  component chosen as \<open>componente_principal\<close> has the largest number of nodes, and among
  the components of that size it is the one that comes first in the list in which the
  components were discovered.
\<close>

theorem principal_es_primer_maximo:
  assumes "componentes \<noteq> []" and "\<forall>c \<in> set componentes. finite c"
  shows "\<exists>i < length componentes.
      componente_principal (ordenar_componentes componentes) = componentes ! i
      \<and> (\<forall>j < length componentes. card (componentes ! j) \<le> card (componentes ! i))
      \<and> (\<forall>j < i. card (componentes ! j) < card (componentes ! i))"
  using primero_maximo [OF assms] componente_principal_last [OF assms(1)]
  by auto

theorem principal_es_primer_maximo_witness:
  "componente_principal (ordenar_componentes [{1::nat}, {2, 3}, {4, 5}, {6}]) = {2, 3}"
proof -
  let ?cs = "[{1::nat}, {2, 3}, {4, 5}, {6}]"
  have "?cs \<noteq> []" and "\<forall>c \<in> set ?cs. finite c"
    by simp_all
  from principal_es_primer_maximo [OF this] obtain i where i: "i < length ?cs"
    and p: "componente_principal (ordenar_componentes ?cs) = ?cs ! i"
    and mx: "\<forall>j < length ?cs. card (?cs ! j) \<le> card (?cs ! i)"
    and fs: "\<forall>j < i. card (?cs ! j) < card (?cs ! i)"
    by blast
  from i have "i = 0 \<or> i = 1 \<or> i = 2 \<or> i = 3"
    by auto
  moreover have "i \<noteq> 0"
  proof
    assume "i = 0"
    with mx [rule_format, of 1] show False by simp
  qed
  moreover have "i \<noteq> 3"
  proof
    assume "i = 3"
    with mx [rule_format, of 1] show False by simp
  qed
  moreover have "i \<noteq> 2"
  proof
    assume "i = 2"
    with fs [rule_format, of 1] show False by simp
  qed
  ultimately have "i = 1" by blast
  with p show ?thesis by simp
qed

subsection \<open>The reduction\<close>

lemma set_update_subset: "set (AList.update k v al) \<subseteq> insert (k, v) (set al)"
  by (induction al) auto

lemma vecinos_de_update:
  "vecinos_de (AList.update k vs la) \<subseteq> vecinos_de la \<union> fst ` set vs"
proof -
  have "snd ` set (AList.update k vs la) \<subseteq> insert vs (snd ` set la)"
    using set_update_subset [of k vs la] by force
  then show ?thesis
    unfolding vecinos_de_def by blast
qed

lemma vecinos_de_paso_nodo: "vecinos_de (snd (paso_nodo nd st)) \<subseteq> vecinos_de (snd st)"
proof -
  obtain nodo data where nd: "nd = (nodo, data)" by (cases nd) auto
  obtain ni la where st: "st = (ni, la)" by (cases st) auto
  show ?thesis
    using vecinos_de_update [of nodo "[]" la] by (simp add: nd st paso_nodo_eq)
qed

lemma vecinos_de_extraer_nodos:
  "vecinos_de (snd (extraer_nodos nds st)) \<subseteq> vecinos_de (snd st)"
proof (induction nds arbitrary: st)
  case Nil
  then show ?case by simp
next
  case (Cons nd nds)
  from Cons.IH [of "paso_nodo nd st"] vecinos_de_paso_nodo [of nd st]
  show ?case by auto
qed

lemma vecinos_de_agregar:
  assumes "agregar la k e = Inr la'"
  shows "vecinos_de la' \<subseteq> insert (fst e) (vecinos_de la)"
proof -
  from agregar_Inr [OF assms] have "la' = AList.update k (get_or la k [] @ [e]) la"
    by simp
  then show ?thesis
    using vecinos_de_update [of k "get_or la k [] @ [e]" la] get_or_vecinos [of la k]
    by auto
qed

lemma vecinos_de_procesar_arista:
  assumes "procesar_arista la (u, v, data) = Inr la'"
  shows "vecinos_de la' \<subseteq> vecinos_de la \<union> {u, v}"
proof -
  let ?t = "py_round2 (minutos_de (length_de data))"
  from assms obtain la1 where a1: "agregar la u (v, length_de data, ?t) = Inr la1"
    and r: "(if doble_sentido data then agregar la1 v (u, length_de data, ?t) else Inr la1) = Inr la'"
    by (auto simp: procesar_arista_eq split: sum.splits)
  from vecinos_de_agregar [OF a1] have s1: "vecinos_de la1 \<subseteq> vecinos_de la \<union> {u, v}"
    by auto
  show ?thesis
  proof (cases "doble_sentido data")
    case True
    with r have "agregar la1 v (u, length_de data, ?t) = Inr la'" by simp
    from vecinos_de_agregar [OF this] s1 show ?thesis by auto
  next
    case False
    with r s1 show ?thesis by simp
  qed
qed

lemma vecinos_de_extraer_aristas:
  "extraer_aristas ars la = Inr la' \<Longrightarrow>
     vecinos_de la' \<subseteq> vecinos_de la \<union> fst ` set ars \<union> (fst \<circ> snd) ` set ars"
proof (induction ars arbitrary: la)
  case Nil
  then show ?case by simp
next
  case (Cons ar ars)
  obtain u v data where ar: "ar = (u, v, data)"
    by (cases ar) auto
  from Cons.prems obtain la1 where p: "procesar_arista la ar = Inr la1"
    and r: "extraer_aristas ars la1 = Inr la'"
    by (auto split: sum.splits)
  from p have "vecinos_de la1 \<subseteq> vecinos_de la \<union> {u, v}"
    using vecinos_de_procesar_arista [of la u v data la1] by (simp add: ar)
  with Cons.IH [OF r] show ?case
    by (auto simp: ar)
qed

lemma construir_bien_formado:
  assumes "\<forall>ar \<in> set aristas. fst ar \<in> fst ` set nodos \<and> fst (snd ar) \<in> fst ` set nodos"
  shows "\<exists>ni la. construir nodos aristas = Inr (ni, la)
           \<and> set (keys ni) = fst ` set nodos \<and> set (keys la) = fst ` set nodos
           \<and> vecinos_de la \<subseteq> set (keys la)"
proof -
  let ?st = "extraer_nodos nodos ([], [])"
  have k: "set (keys (fst ?st)) = fst ` set nodos" "set (keys (snd ?st)) = fst ` set nodos"
    using extraer_nodos_keys [of nodos "([], [])"] by (simp_all add: keys_def)
  have v0: "vecinos_de (snd ?st) = {}"
    using vecinos_de_extraer_nodos [of nodos "([], [])"] by (simp add: vecinos_de_def)
  from assms k have "\<forall>ar \<in> set aristas. fst ar \<in> set (keys (snd ?st))
      \<and> fst (snd ar) \<in> set (keys (snd ?st))"
    by simp
  from extraer_aristas_ok [OF this] obtain la where e: "extraer_aristas aristas (snd ?st) = Inr la"
    by blast
  have c: "construir nodos aristas = Inr (fst ?st, la)"
    using e by (simp add: construir_def)
  have kl: "set (keys la) = fst ` set nodos"
    using extraer_aristas_keys [OF e] k by simp
  have "vecinos_de la \<subseteq> fst ` set aristas \<union> (fst \<circ> snd) ` set aristas"
    using vecinos_de_extraer_aristas [OF e] v0 by simp
  also have "\<dots> \<subseteq> fst ` set nodos"
    using assms by auto
  finally have "vecinos_de la \<subseteq> set (keys la)"
    using kl by simp
  with c k kl show ?thesis by blast
qed

lemma reducir_ady_ok:
  "set ns \<subseteq> set (keys la) \<Longrightarrow>
     \<exists>nueva'. reducir_ady la cp ns nueva = Inr nueva'
       \<and> set (keys nueva') = set (keys nueva) \<union> set ns
       \<and> vecinos_de nueva' \<subseteq> vecinos_de nueva \<union> cp"
proof (induction ns arbitrary: nueva)
  case Nil
  then show ?case by simp
next
  case (Cons n ns)
  from Cons.prems have "n \<in> set (keys la)" by simp
  then obtain vs where vs: "map_of la n = Some vs"
    by (auto simp: in_keys_iff)
  let ?f = "filter (\<lambda>vecino_info. fst vecino_info \<in> cp) vs"
  let ?n1 = "AList.update n ?f nueva"
  from Cons.prems have "set ns \<subseteq> set (keys la)" by simp
  from Cons.IH [OF this, of ?n1] obtain nueva' where r: "reducir_ady la cp ns ?n1 = Inr nueva'"
    and k: "set (keys nueva') = set (keys ?n1) \<union> set ns"
    and v: "vecinos_de nueva' \<subseteq> vecinos_de ?n1 \<union> cp"
    by blast
  have "reducir_ady la cp (n # ns) nueva = Inr nueva'"
    using r vs by (simp add: getitem_def)
  moreover have "set (keys nueva') = set (keys nueva) \<union> set (n # ns)"
    using k by (auto simp: keys_update)
  moreover have "vecinos_de nueva' \<subseteq> vecinos_de nueva \<union> cp"
    using v vecinos_de_update [of n ?f nueva] by auto
  ultimately show ?case by blast
qed

lemma reducir_info_ok:
  "set ns \<subseteq> set (keys ni) \<Longrightarrow>
     \<exists>nueva'. reducir_info ni ns nueva = Inr nueva'
       \<and> set (keys nueva') = set (keys nueva) \<union> set ns"
proof (induction ns arbitrary: nueva)
  case Nil
  then show ?case by simp
next
  case (Cons n ns)
  from Cons.prems have "n \<in> set (keys ni)" by simp
  then obtain xy where xy: "map_of ni n = Some xy"
    by (auto simp: in_keys_iff)
  let ?n1 = "AList.update n xy nueva"
  from Cons.prems have "set ns \<subseteq> set (keys ni)" by simp
  from Cons.IH [OF this, of ?n1] obtain nueva' where r: "reducir_info ni ns ?n1 = Inr nueva'"
    and k: "set (keys nueva') = set (keys ?n1) \<union> set ns"
    by blast
  have "reducir_info ni (n # ns) nueva = Inr nueva'"
    using r xy by (simp add: getitem_def)
  moreover have "set (keys nueva') = set (keys nueva) \<union> set (n # ns)"
    using k by (auto simp: keys_update)
  ultimately show ?case by blast
qed

lemma componente_principal_mem:
  "cs \<noteq> [] \<Longrightarrow> componente_principal (ordenar_componentes cs) \<in> set cs"
proof -
  assume "cs \<noteq> []"
  then have "ordenar_componentes cs \<noteq> []"
    using length_ordenar_componentes [of cs] by auto
  then have "componente_principal (ordenar_componentes cs) \<in> set (ordenar_componentes cs)"
    by (cases "ordenar_componentes cs") (auto simp: componente_principal_def)
  then show ?thesis
    by (simp add: set_ordenar_componentes)
qed

lemma reducir_cerrado:
  assumes it: "\<forall>S. finite S \<longrightarrow> set (iter S) = S"
    and itc: "\<forall>S. finite S \<longrightarrow> set (iter_cp S) = S"
    and kk: "set (keys ni) = set (keys la)"
    and ce: "vecinos_de la \<subseteq> set (keys la)"
  shows "\<exists>ni' la'. reducir iter iter_cp ni la = Inr (ni', la')
     \<and> set (keys la') = principal iter la \<and> set (keys ni') = principal iter la
     \<and> vecinos_de la' \<subseteq> principal iter la"
proof -
  let ?cs = "componentes_de iter la"
  let ?cp = "principal iter la"
  have i0: "set (iter (set (keys la))) = set (keys la)"
    using it by simp
  have cub: "set (keys la) \<subseteq> \<Union> (set ?cs)"
    using i0 by (rule componentes_de_cubre)
  have den: "\<forall>c \<in> set ?cs. c \<subseteq> set (keys la)"
    using i0 ce by (rule componentes_de_dentro)
  show ?thesis
  proof (cases "length ?cs \<le> 1")
    case True
    then have r: "reducir iter iter_cp ni la = Inr (ni, la)"
      by (simp add: reducir_def length_ordenar_componentes)
    have "set (keys la) = ?cp"
    proof (cases ?cs)
      case Nil
      then have "set (keys la) = {}"
        using cub by simp
      moreover have "ordenar_componentes [] = ([] :: 'a set list)"
        using length_ordenar_componentes [of "[] :: 'a set list"] by simp
      ultimately show ?thesis
        using Nil by (simp add: principal_def componente_principal_def)
    next
      case (Cons c rest)
      with True have cs: "?cs = [c]" by simp
      then have "?cp \<in> {c}"
        using componente_principal_mem [of ?cs] by (simp add: principal_def)
      moreover have "set (keys la) = c"
        using cub den cs by auto
      ultimately show ?thesis by simp
    qed
    with r kk ce show ?thesis by auto
  next
    case False
    then have ne: "?cs \<noteq> []" by auto
    have "?cp \<in> set ?cs"
      using componente_principal_mem [OF ne] by (simp add: principal_def)
    then have sub: "?cp \<subseteq> set (keys la)" and fin: "finite ?cp"
      using den componentes_de_finite [of iter la] by auto
    have ic: "set (iter_cp ?cp) = ?cp"
      using itc fin by simp
    from reducir_ady_ok [of "iter_cp ?cp" la ?cp "[]"] sub ic
    obtain la' where a: "reducir_ady la ?cp (iter_cp ?cp) [] = Inr la'"
      and ka: "set (keys la') = ?cp" and va: "vecinos_de la' \<subseteq> ?cp"
      by (auto simp: keys_def vecinos_de_def)
    from reducir_info_ok [of "iter_cp ?cp" ni "[]"] sub ic kk
    obtain ni' where b: "reducir_info ni (iter_cp ?cp) [] = Inr ni'"
      and kb: "set (keys ni') = ?cp"
      by (auto simp: keys_def)
    have "reducir iter iter_cp ni la = Inr (ni', la')"
      using False a b
      by (simp add: reducir_def Let_def length_ordenar_componentes principal_def)
    with ka kb va show ?thesis by blast
  qed
qed

text \<open>
  C6. When every endpoint of a raw edge is a declared node, then for any order in which
  the two sets are enumerated the builder returns maps in which the nodes with an
  adjacency list are nodes of the attribute map, and the reducer returns maps in which
  this still holds: the keys of the adjacency map and the keys of
  the attribute map are both exactly the set of nodes of the chosen component, and every
  neighbour in an adjacency list belongs to that set.
\<close>

theorem invariante_nodos:
  assumes "\<forall>ar \<in> set aristas. fst ar \<in> fst ` set nodos \<and> fst (snd ar) \<in> fst ` set nodos"
    and "\<forall>S. finite S \<longrightarrow> set (iter S) = S"
    and "\<forall>S. finite S \<longrightarrow> set (iter_cp S) = S"
  shows "\<exists>ni la ni' la'. construir nodos aristas = Inr (ni, la)
     \<and> set (keys la) \<subseteq> set (keys ni)
     \<and> reducir iter iter_cp ni la = Inr (ni', la')
     \<and> set (keys la') \<subseteq> set (keys ni')
     \<and> set (keys la') = principal iter la
     \<and> set (keys ni') = principal iter la
     \<and> vecinos_de la' \<subseteq> principal iter la"
proof -
  from construir_bien_formado [OF assms(1)] obtain ni la
    where c: "construir nodos aristas = Inr (ni, la)"
      and kn: "set (keys ni) = fst ` set nodos" and kl: "set (keys la) = fst ` set nodos"
      and ce: "vecinos_de la \<subseteq> set (keys la)"
    by blast
  have kk: "set (keys ni) = set (keys la)"
    using kn kl by simp
  from reducir_cerrado [OF assms(2,3) kk ce] obtain ni' la'
    where r: "reducir iter iter_cp ni la = Inr (ni', la')"
      and a: "set (keys la') = principal iter la" and b: "set (keys ni') = principal iter la"
      and v: "vecinos_de la' \<subseteq> principal iter la"
    by blast
  from c kk r a b v show ?thesis
    by blast
qed

theorem invariante_nodos_witness:
  "\<exists>ni la ni' la'. construir
       [(1::nat, \<lparr>x_attr = Some 1, y_attr = Some 1\<rparr>), (2, \<lparr>x_attr = Some 2, y_attr = Some 2\<rparr>),
        (3, \<lparr>x_attr = Some 3, y_attr = Some 3\<rparr>)]
       [(1, 2, \<lparr>length_attr = Some 1000, oneway_attr = Some (PBool False)\<rparr>)] = Inr (ni, la)
     \<and> reducir sorted_list_of_set (\<lambda>S. rev (sorted_list_of_set S)) ni la = Inr (ni', la')
     \<and> set (keys la') = {1, 2} \<and> set (keys ni') = {1, 2} \<and> vecinos_de la' \<subseteq> {1, 2}"
proof -
  let ?nodos = "[(1::nat, \<lparr>x_attr = Some 1, y_attr = Some 1\<rparr>), (2, \<lparr>x_attr = Some 2, y_attr = Some 2\<rparr>),
        (3, \<lparr>x_attr = Some 3, y_attr = Some 3\<rparr>)]"
  let ?aristas = "[(1::nat, 2::nat, \<lparr>length_attr = Some 1000, oneway_attr = Some (PBool False)\<rparr>)]"
  let ?la = "[(1::nat, [(2::nat, 1000::rat, 2::rat)]), (2, [(1, 1000, 2)]), (3, [])]"
  have w: "\<forall>ar \<in> set ?aristas. fst ar \<in> fst ` set ?nodos \<and> fst (snd ar) \<in> fst ` set ?nodos"
    by simp
  have it: "\<forall>S :: nat set. finite S \<longrightarrow> set (sorted_list_of_set S) = S"
    by simp
  have itc: "\<forall>S :: nat set. finite S \<longrightarrow> set (rev (sorted_list_of_set S)) = S"
    by simp
  have c: "construir ?nodos ?aristas = Inr ([(1, (1, 1)), (2, (2, 2)), (3, (3, 3))], ?la)"
    by code_simp
  have p: "principal sorted_list_of_set ?la = {1, 2}"
    by code_simp
  from invariante_nodos [OF w it itc] c p show ?thesis
    by auto
qed

text \<open>The guard of the reducer: with at most one component found nothing is rebuilt.\<close>

lemma reducir_guardia:
  assumes "length (componentes_de iter lista_ady) \<le> 1"
  shows "reducir iter iter_cp nodos_info lista_ady = Inr (nodos_info, lista_ady)"
  using assms by (simp add: reducir_def length_ordenar_componentes)


text \<open>
  C5 on the code. Nodes 1 and 2 with one one-way street from 2 to 1: enumerating the
  nodes as 1, 2 the loop collects the components {1} and {1, 2}, which share node 1;
  enumerating them as 2, 1 it collects the single component {1, 2}. With a third node
  and a second one-way street from 3 to 1 the components are {1}, {1, 2} and {1, 3}, and
  the reducer drops node 3 although every node is joined to node 1 by a street.
\<close>

theorem componentes_solapadas:
  "construir [(1::nat, \<lparr>x_attr = Some 0, y_attr = Some 0\<rparr>), (2, \<lparr>x_attr = Some 1, y_attr = Some 1\<rparr>)]
     [(2, 1, \<lparr>length_attr = Some 50, oneway_attr = Some (PBool True)\<rparr>)]
     = Inr ([(1, (0, 0)), (2, (1, 1))], [(1, []), (2, [(1, 50, py_float (1 / 10))])])
   \<and> componentes_de (\<lambda>S. filter (\<lambda>n. n \<in> S) [1, 2]) [(1::nat, []), (2, [(1, 50, py_float (1 / 10))])]
       = [{1}, {1, 2}]
   \<and> componentes_de (\<lambda>S. filter (\<lambda>n. n \<in> S) [2, 1]) [(1::nat, []), (2, [(1, 50, py_float (1 / 10))])]
       = [{1, 2}]
   \<and> componentes_de (\<lambda>S. filter (\<lambda>n. n \<in> S) [1, 2, 3])
       [(1::nat, []), (2, [(1, 50, py_float (1 / 10))]), (3, [(1, 50, py_float (1 / 10))])]
       = [{1}, {1, 2}, {1, 3}]
   \<and> reducir (\<lambda>S. filter (\<lambda>n. n \<in> S) [1, 2, 3]) (\<lambda>S. filter (\<lambda>n. n \<in> S) [1, 2, 3])
       [(1::nat, (0, 0)), (2, (1, 1)), (3, (2, 2))]
       [(1::nat, []), (2, [(1, 50, py_float (1 / 10))]), (3, [(1, 50, py_float (1 / 10))])]
       = Inr ([(1, (0, 0)), (2, (1, 1))], [(1, []), (2, [(1, 50, py_float (1 / 10))])])"
  by code_simp

subsection \<open>The sampler\<close>

lemma randbelow_less: "0 < n \<Longrightarrow> fst (randbelow n rng) < n"
  by (cases rng) (simp_all add: randbelow_def)

lemma shuffle_pasos_props:
  "k \<le> length x - 1 \<Longrightarrow>
     set (fst (shuffle_pasos k x rng)) = set x
     \<and> distinct (fst (shuffle_pasos k x rng)) = distinct x
     \<and> length (fst (shuffle_pasos k x rng)) = length x"
proof (induction k arbitrary: x rng)
  case 0
  then show ?case by simp
next
  case (Suc k)
  let ?j = "fst (randbelow (Suc k + 1) rng)"
  let ?x = "x[Suc k := x ! ?j, ?j := x ! Suc k]"
  have i: "Suc k < length x"
    using Suc.prems by simp
  have "?j < Suc k + 1"
    by (rule randbelow_less) simp
  with i have j: "?j < length x"
    by simp
  have "k \<le> length ?x - 1"
    using Suc.prems by simp
  from Suc.IH [OF this, of "snd (randbelow (Suc k + 1) rng)"]
  have "set (fst (shuffle_pasos (Suc k) x rng)) = set ?x
     \<and> distinct (fst (shuffle_pasos (Suc k) x rng)) = distinct ?x
     \<and> length (fst (shuffle_pasos (Suc k) x rng)) = length ?x"
    by (simp add: Let_def)
  moreover have "set ?x = set x"
    using i j by (simp add: set_swap)
  moreover have "distinct ?x = distinct x"
    using i j by (simp add: distinct_swap)
  ultimately show ?case by simp
qed

lemma shuffle_props:
  "set (fst (shuffle x rng)) = set x"
  "distinct (fst (shuffle x rng)) = distinct x"
  "length (fst (shuffle x rng)) = length x"
  using shuffle_pasos_props [of "length x - 1" x rng] by (simp_all add: shuffle_def)

lemma encolar_muestra_inv:
  "distinct (sub @ fst st) \<Longrightarrow> set sub \<union> set (fst st) \<subseteq> snd st \<Longrightarrow>
     distinct (sub @ fst (encolar_muestra vs tam st))
     \<and> set sub \<union> set (fst (encolar_muestra vs tam st)) \<subseteq> snd (encolar_muestra vs tam st)
     \<and> snd (encolar_muestra vs tam st) \<subseteq> snd st \<union> set vs"
proof (induction vs arbitrary: st)
  case Nil
  then show ?case by simp
next
  case (Cons vec resto)
  show ?case
  proof (cases "vec \<notin> snd st \<and> tam + length (fst st) < 1000")
    case True
    let ?st = "(fst st @ [vec], insert vec (snd st))"
    have "distinct (sub @ fst ?st)" and "set sub \<union> set (fst ?st) \<subseteq> snd ?st"
      using Cons.prems True by auto
    from Cons.IH [OF this] True show ?thesis
      by auto
  next
    case False
    with Cons.IH [OF Cons.prems] show ?thesis
      by auto
  qed
qed

lemma muestreo_bucle_inv:
  "distinct (sub @ cola) \<Longrightarrow> set sub \<union> set cola \<subseteq> vis \<Longrightarrow> length sub \<le> 100 \<Longrightarrow>
     distinct (fst (muestreo_bucle g cola sub vis rng))
     \<and> length (fst (muestreo_bucle g cola sub vis rng)) \<le> 100
     \<and> set (fst (muestreo_bucle g cola sub vis rng)) \<subseteq> vis \<union> vecinos_de g"
proof (induction g cola sub vis rng rule: muestreo_bucle.induct)
  case (1 g cola sub vis rng)
  show ?case
  proof (cases "length cola > 0 \<and> length sub < 100")
    case False
    then have "muestreo_bucle g cola sub vis rng = (sub, rng)"
      by (subst muestreo_bucle.simps) auto
    with "1.prems" show ?thesis by auto
  next
    case True
    define nodo where "nodo = hd cola"
    define cola1 where "cola1 = tl cola"
    define sub1 where "sub1 = sub @ [nodo]"
    define vecinos where "vecinos = map fst (get_or g nodo [])"
    define vr where "vr = shuffle vecinos rng"
    define st where "st = encolar_muestra (fst vr) (length sub1) (cola1, vis)"
    have cola: "cola = nodo # cola1"
      using True by (cases cola) (simp_all add: nodo_def cola1_def)
    have eq: "muestreo_bucle g cola sub vis rng = muestreo_bucle g (fst st) sub1 (snd st) (snd vr)"
      using True
      by (subst muestreo_bucle.simps)
        (simp add: Let_def nodo_def cola1_def sub1_def vecinos_def vr_def st_def)
    have d1: "distinct (sub1 @ fst (cola1, vis))"
      using "1.prems"(1) by (simp add: cola sub1_def)
    have s1: "set sub1 \<union> set (fst (cola1, vis)) \<subseteq> snd (cola1, vis)"
      using "1.prems"(2) by (auto simp: cola sub1_def)
    from encolar_muestra_inv [OF d1 s1, of "fst vr" "length sub1"]
    have d2: "distinct (sub1 @ fst st)" and s2: "set sub1 \<union> set (fst st) \<subseteq> snd st"
      and v2: "snd st \<subseteq> vis \<union> set (fst vr)"
      by (simp_all add: st_def)
    have l1: "length sub1 \<le> 100"
      using True by (simp add: sub1_def)
    have "set (fst vr) = set vecinos"
      by (simp add: vr_def shuffle_props)
    also have "\<dots> \<subseteq> vecinos_de g"
      using get_or_vecinos [of g nodo] by (simp add: vecinos_def)
    finally have v3: "snd st \<subseteq> vis \<union> vecinos_de g"
      using v2 by auto
    have "distinct (fst (muestreo_bucle g (fst st) sub1 (snd st) (snd vr)))
     \<and> length (fst (muestreo_bucle g (fst st) sub1 (snd st) (snd vr))) \<le> 100
     \<and> set (fst (muestreo_bucle g (fst st) sub1 (snd st) (snd vr))) \<subseteq> snd st \<union> vecinos_de g"
      using "1.IH" [OF True nodo_def cola1_def sub1_def vecinos_def vr_def st_def d2 s2 l1] .
    with v3 eq show ?thesis by auto
  qed
qed

lemma extras_bastan:
  assumes "distinct ks" and "distinct sub"
  shows "length ks - length sub \<le> length (filter (\<lambda>n. n \<notin> set sub) ks)"
proof -
  let ?in = "filter (\<lambda>n. n \<in> set sub) ks"
  have "distinct ?in"
    using assms(1) by simp
  then have "length ?in = card (set ?in)"
    by (rule distinct_card [symmetric])
  also have "\<dots> \<le> card (set sub)"
    by (rule card_mono) auto
  also have "\<dots> \<le> length sub"
    by (rule card_length)
  finally have "length ?in \<le> length sub" .
  moreover have "length ?in + length (filter (\<lambda>n. n \<notin> set sub) ks) = length ks"
    using sum_length_filter_compl [of "\<lambda>n. n \<in> set sub" ks] by simp
  ultimately show ?thesis by linarith
qed

text \<open>
  C2. On an adjacency map (a dict, so with distinct keys) the sampler returns without
  raising a list of distinct nodes. With at least 100 nodes the list has exactly 100
  elements; with fewer than 100 nodes it is the list of all the nodes, so the empty
  graph gives the empty sample. When every neighbour is itself a node of the map, as in
  a retained graph, the sample is a subset of the nodes.
\<close>

theorem muestra_de_cien:
  assumes "distinct (keys lista_ady)"
  shows "\<exists>sub rng'. subgrafo_nodos_de lista_ady rng = Inr (sub, rng')
     \<and> distinct sub
     \<and> (100 \<le> length (keys lista_ady) \<longrightarrow> length sub = 100)
     \<and> (length (keys lista_ady) < 100 \<longrightarrow> sub = keys lista_ady)
     \<and> (lista_ady = [] \<longrightarrow> sub = [])
     \<and> (vecinos_de lista_ady \<subseteq> set (keys lista_ady) \<longrightarrow> set sub \<subseteq> set (keys lista_ady))"
proof (cases "length lista_ady \<le> 100")
  case True
  then have "subgrafo_nodos_de lista_ady rng = Inr (keys lista_ady, rng)"
    by (simp add: subgrafo_nodos_de_def)
  with True assms show ?thesis
    by (auto simp: keys_def)
next
  case False
  let ?ks = "keys lista_ady"
  have n: "100 < length ?ks"
    using False by (simp add: keys_def)
  then have ne: "?ks \<noteq> []" by auto
  define jr where "jr = randbelow (length ?ks) rng"
  define inicio where "inicio = ?ks ! fst jr"
  have ch: "choice ?ks rng = Inr (inicio, snd jr)"
    using ne by (simp add: choice_def Let_def jr_def inicio_def)
  have "fst jr < length ?ks"
    using ne by (simp add: jr_def randbelow_less)
  then have ik: "inicio \<in> set ?ks"
    by (simp add: inicio_def)
  define sr where "sr = muestreo_bucle lista_ady [inicio] [] {inicio} (snd jr)"
  define sub where "sub = fst sr"
  from muestreo_bucle_inv [of "[]" "[inicio]" "{inicio}" lista_ady "snd jr"]
  have ds: "distinct sub" and ls: "length sub \<le> 100"
    and ss: "set sub \<subseteq> {inicio} \<union> vecinos_de lista_ady"
    by (simp_all add: sub_def sr_def)
  have sk: "set sub \<subseteq> set ?ks" if "vecinos_de lista_ady \<subseteq> set ?ks"
    using that ss ik by auto
  show ?thesis
  proof (cases "length sub < 100")
    case lt: True
    define faltan where "faltan = 100 - length sub"
    define extras where "extras = filter (\<lambda>n. n \<notin> set sub) ?ks"
    define er where "er = shuffle extras (snd sr)"
    have r: "subgrafo_nodos_de lista_ady rng
        = Inr (sub @ take (min faltan (length (fst er))) (fst er), snd er)"
      using False lt
      by (simp add: subgrafo_nodos_de_def ch Let_def sr_def [symmetric] sub_def [symmetric]
          faltan_def extras_def er_def)
    have "length ?ks - length sub \<le> length extras"
      unfolding extras_def using assms ds by (rule extras_bastan)
    then have fe: "faltan \<le> length (fst er)"
      using n by (simp add: er_def shuffle_props faltan_def)
    have se: "set (fst er) = set extras" and de: "distinct (fst er)"
      using assms by (simp_all add: er_def shuffle_props extras_def)
    let ?t = "take (min faltan (length (fst er))) (fst er)"
    have lt2: "length ?t = faltan"
      using fe by simp
    have st: "set ?t \<subseteq> set extras"
      using se set_take_subset [of "min faltan (length (fst er))" "fst er"] by simp
    have "distinct (sub @ ?t)"
      using ds de st by (auto simp: extras_def)
    moreover have "length (sub @ ?t) = 100"
      using lt2 lt by (simp add: faltan_def)
    moreover have "set (sub @ ?t) \<subseteq> set ?ks" if "vecinos_de lista_ady \<subseteq> set ?ks"
      using sk [OF that] st by (auto simp: extras_def)
    ultimately show ?thesis
      using r n ne by (auto simp: keys_def)
  next
    case ge: False
    then have r: "subgrafo_nodos_de lista_ady rng = Inr (sub, snd sr)"
      using False
      by (simp add: subgrafo_nodos_de_def ch Let_def sr_def [symmetric] sub_def [symmetric])
    have "length sub = 100"
      using ge ls by simp
    with r ds sk n ne show ?thesis
      by (auto simp: keys_def)
  qed
qed

theorem muestra_de_cien_witness:
  "(\<exists>sub rng'. subgrafo_nodos_de (map (\<lambda>i. (i, [(Suc i mod 150, 10, 1 / 50)])) [0..<150]) [7, 3, 9]
        = Inr (sub, rng')
      \<and> distinct sub \<and> length sub = 100 \<and> set sub \<subseteq> {0..<150})
   \<and> (\<exists>rng'. subgrafo_nodos_de [(1::nat, [(2, 10, 1 / 50)]), (2, [])] [7, 3, 9] = Inr ([1, 2], rng'))
   \<and> (\<exists>rng'. subgrafo_nodos_de ([] :: nat ady) [7, 3, 9] = Inr ([], rng'))"
proof -
  let ?g = "map (\<lambda>i. (i, [(Suc i mod 150, 10 :: rat, 1 / 50 :: rat)])) [0..<150]"
  let ?h = "[(1::nat, [(2::nat, 10 :: rat, 1 / 50 :: rat)]), (2, [])]"
  have kg: "keys ?g = [0..<150]"
    by (simp add: keys_def comp_def)
  have vg: "vecinos_de ?g \<subseteq> set (keys ?g)"
    unfolding kg by (auto simp: vecinos_de_def)
  have a: "\<exists>sub rng'. subgrafo_nodos_de ?g [7, 3, 9] = Inr (sub, rng')
      \<and> distinct sub \<and> length sub = 100 \<and> set sub \<subseteq> {0..<150}"
    using muestra_de_cien [of ?g "[7, 3, 9]"] vg kg by auto
  have b: "\<exists>rng'. subgrafo_nodos_de ?h [7, 3, 9] = Inr ([1, 2], rng')"
    using muestra_de_cien [of ?h "[7, 3, 9]"] by (auto simp: keys_def)
  have c: "\<exists>rng'. subgrafo_nodos_de ([] :: nat ady) [7, 3, 9] = Inr ([], rng')"
    using muestra_de_cien [of "[] :: nat ady" "[7, 3, 9]"] by (auto simp: keys_def)
  from a b c show ?thesis by blast
qed

end
